theory Spec2Isabelle
  imports Main "HOL-Library.Word"
begin

section \<open>DQMStreamerReader: data model\<close>

text \<open>
  The development embeds \<^verbatim>\<open>IOPool/DQMStreamer/plugins/DQMStreamerReader.cc\<close>.
  The reader object becomes a record that every member function takes and returns; an
  exception becomes the \<open>Inl\<close> branch of a sum; the loops that wait for the
  directory (\<^verbatim>\<open>for (;;)\<close>) and the loop of \<^verbatim>\<open>skip\<close> over them become
  \<^theory_text>\<open>partial_function (option)\<close>, where \<open>None\<close> is a call that never returns.

  C++ \<^verbatim>\<open>int\<close> is taken as a 32-bit two's complement integer whose \<^verbatim>\<open>++\<close> and
  \<^verbatim>\<open>--\<close> wrap around, which is what the compilers of the target platform emit (the
  language standard leaves signed overflow undefined). \<open>sint\<close> reads the signed value.
\<close>

type_synonym int32 = "32 word"

text \<open>
  Modelled from the spec: the message codes of \<^verbatim>\<open>Header::Codes\<close> (MsgTools.h is not
  among the sources). The first record of a physical file is a structural-header
  (\<^verbatim>\<open>INIT\<close>) record, the following ones are event records; any other code is kept
  by its number.
\<close>

datatype Codes = INIT | EVENT | OtherCode nat

record EventMsg =
  run :: nat
  lumi :: nat
  event :: nat

text \<open>
  A physical data file on disk: the code of its first record and the event records
  that follow it. The filesystem maps a path to the file stored there.
\<close>

record dat_file =
  header_code :: Codes
  events :: "EventMsg list"

type_synonym filesystem = "string \<rightharpoonup> dat_file"

text \<open>
  Modelled from the spec: \<^verbatim>\<open>StreamerInputFile\<close> (the FramedFileReader of the spec;
  its code is not among the sources). An open file keeps its content readable after
  its directory entry has been unlinked, so the handle owns the records still to be
  read. \<^verbatim>\<open>startMessage()\<close> is the first record, \<^verbatim>\<open>next()\<close> steps to the
  following event record or reports the end of the file, \<^verbatim>\<open>newHeader()\<close> reads
  and clears the new-header flag.
\<close>

record StreamerInputFile =
  fileName :: string
  startMessage :: Codes
  unread :: "EventMsg list"
  newHeaderFlag :: bool

text \<open>
  Modelled from the spec: \<^verbatim>\<open>DQMFileIterator\<close> (the LumiIndex and DirectoryPoller of
  the spec; its code is not among the sources). An entry carries its lumi number and
  names its data file. The iterator owns the FIFO queue of discovered entries and the
  run-level state. \<open>polls\<close> is what the successive scans of the run directory will
  report, in order; when the list is used up the directory never changes again.
  \<^verbatim>\<open>hasNext()\<close> performs one scan and then tests the queue. Once the state is
  \<open>EOR\<close> a scan changes nothing: the end of run is terminal and no further entry
  appears.
\<close>

record LumiEntry =
  ls :: nat
  datafilename :: string

datatype State = OPEN | EOR

datatype poll = NoChange | NewEntries "LumiEntry list" | RunEnded

record DQMFileIterator =
  queue :: "LumiEntry list"
  fstate :: State
  polls :: "poll list"

definition make_path_data :: "LumiEntry \<Rightarrow> string" where
  "make_path_data entry = datafilename entry"

fun apply_poll :: "poll \<Rightarrow> DQMFileIterator \<Rightarrow> DQMFileIterator" where
  "apply_poll NoChange f = f"
| "apply_poll (NewEntries es) f = f\<lparr>queue := queue f @ es\<rparr>"
| "apply_poll RunEnded f = f\<lparr>fstate := EOR\<rparr>"

definition update_state :: "DQMFileIterator \<Rightarrow> DQMFileIterator" where
  "update_state f =
     (if fstate f = EOR then f
      else case polls f of
             [] \<Rightarrow> f
           | p # ps \<Rightarrow> apply_poll p (f\<lparr>polls := ps\<rparr>))"

definition hasNext :: "DQMFileIterator \<Rightarrow> bool \<times> DQMFileIterator" where
  "hasNext f = (let f' = update_state f in (queue f' \<noteq> [], f'))"

definition pop :: "DQMFileIterator \<Rightarrow> DQMFileIterator" where
  "pop f = f\<lparr>queue := tl (queue f)\<rparr>"

text \<open>
  Errors. \<open>FileReadError where text got\<close> is
  \<^verbatim>\<open>Exception(errors::FileReadError, where) << text << got\<close>.
  \<open>EmptyIndex\<close> is \<^verbatim>\<open>front()\<close> on an empty queue and \<open>FileOpenError\<close> the
  construction of a \<^verbatim>\<open>StreamerInputFile\<close> on a path that does not exist; both
  are modelled from the spec, and the reader calls neither \<^verbatim>\<open>front()\<close> without
  \<^verbatim>\<open>hasNext()\<close> nor the constructor without \<^verbatim>\<open>exists\<close>.
  \<open>NullReader\<close> is a call through \<^verbatim>\<open>streamReader_\<close> while it is null.
\<close>

datatype error =
    FileReadError string string Codes
  | EmptyIndex
  | FileOpenError string
  | NullReader

definition front :: "DQMFileIterator \<Rightarrow> error + LumiEntry" where
  "front f = (case queue f of [] \<Rightarrow> Inl EmptyIndex | entry # _ \<Rightarrow> Inr entry)"

text \<open>
  The reader object. \<open>eventSkipperByID\<close> is \<open>None\<close> for the null pointer that
  \<^verbatim>\<open>EventSkipperByID::create\<close> returns when nothing is configured, and else the
  predicate \<^verbatim>\<open>skipIt(run, lumi, event)\<close>. \<open>disk\<close> is the filesystem the reader
  works on. \<open>consumed\<close> is not a member of the class: it logs, in order, every event
  record that \<^verbatim>\<open>getEventMsg\<close> has read from a file.
\<close>

record DQMStreamerReader =
  fiterator :: DQMFileIterator
  streamReader :: "StreamerInputFile option"
  processedEventPerLs :: int32
  minEventsPerLs :: int32
  flagSkipFirstLumis :: bool
  flagEndOfRunKills :: bool
  flagDeleteDatFiles :: bool
  eventSkipperByID :: "(EventMsg \<Rightarrow> bool) option"
  disk :: filesystem
  consumed :: "EventMsg list"

section \<open>Opening and closing files\<close>

definition new_StreamerInputFile :: "string \<Rightarrow> filesystem \<Rightarrow> error + StreamerInputFile" where
  "new_StreamerInputFile name fs =
     (case fs name of
        None \<Rightarrow> Inl (FileOpenError name)
      | Some d \<Rightarrow> Inr \<lparr>fileName = name, startMessage = header_code d,
                       unread = events d, newHeaderFlag = False\<rparr>)"

definition getHeaderMsg :: "StreamerInputFile \<Rightarrow> error + Codes" where
  "getHeaderMsg r =
     (let header = startMessage r in
      if header \<noteq> INIT
      then Inl (FileReadError ''DQMStreamerReader::readHeader''
                  ''received wrong message type: expected INIT, got '' header)
      else Inr header)"

definition unlink :: "string \<Rightarrow> filesystem \<Rightarrow> filesystem" where
  "unlink name fs = fs(name := None)"

definition exists_file :: "filesystem \<Rightarrow> string \<Rightarrow> bool" where
  "exists_file fs name = (fs name \<noteq> None)"

text \<open>
  \<^verbatim>\<open>deserializeAndMergeWithRegistry\<close> and \<^verbatim>\<open>deserializeEvent\<close> belong to the
  base class \<^verbatim>\<open>StreamerInputSource\<close>; they act on the framework's product registry
  and event principal, which are not part of the reader's own state.
\<close>

definition openFile :: "string \<Rightarrow> DQMStreamerReader \<Rightarrow> error + DQMStreamerReader" where
  "openFile newStreamerFile s =
     (let s1 = s\<lparr>processedEventPerLs := 0\<rparr> in
      case new_StreamerInputFile newStreamerFile (disk s1) of
        Inl e \<Rightarrow> Inl e
      | Inr r \<Rightarrow>
          let s2 = s1\<lparr>streamReader := Some r\<rparr> in
          (case getHeaderMsg r of
             Inl e \<Rightarrow> Inl e
           | Inr header \<Rightarrow>
               let s3 = s2\<lparr>processedEventPerLs := 0\<rparr> in
               Inr (if flagDeleteDatFiles s3
                    then s3\<lparr>disk := unlink newStreamerFile (disk s3)\<rparr>
                    else s3)))"

definition closeFile :: "DQMStreamerReader \<Rightarrow> DQMStreamerReader" where
  "closeFile s =
     (case streamReader s of
        None \<Rightarrow> s
      | Some r \<Rightarrow> s\<lparr>streamReader := None\<rparr>)"

definition openNextFile :: "DQMStreamerReader \<Rightarrow> error + bool \<times> DQMStreamerReader" where
  "openNextFile s =
     (let s1 = closeFile s in
      case front (fiterator s1) of
        Inl e \<Rightarrow> Inl e
      | Inr entry \<Rightarrow>
          let p = make_path_data entry;
              s2 = s1\<lparr>fiterator := pop (fiterator s1)\<rparr> in
          if exists_file (disk s2) p
          then (case openFile (make_path_data entry) s2 of
                  Inl e \<Rightarrow> Inl e
                | Inr s3 \<Rightarrow> Inr (True, s3))
          else Inr (False, s2))"

definition getEventMsg :: "DQMStreamerReader \<Rightarrow> EventMsg option \<times> DQMStreamerReader" where
  "getEventMsg s =
     (case streamReader s of
        None \<Rightarrow> (None, s)
      | Some r \<Rightarrow>
          (case unread r of
             [] \<Rightarrow> (None, s)
           | e # es \<Rightarrow>
               (Some e, s\<lparr>streamReader := Some (r\<lparr>unread := es\<rparr>),
                          consumed := consumed s @ [e]\<rparr>)))"

section \<open>The event loop\<close>

text \<open>
  \<open>hasNext_r\<close> is \<^verbatim>\<open>fiterator_.hasNext()\<close> on the reader's own iterator.
  \<open>delay\<close> logs and sleeps; the directory changes that the sleep waits for are seen
  by the next scan.
\<close>

definition hasNext_r :: "DQMStreamerReader \<Rightarrow> bool \<times> DQMStreamerReader" where
  "hasNext_r s = (let (b, f) = hasNext (fiterator s) in (b, s\<lparr>fiterator := f\<rparr>))"

definition delay :: "DQMStreamerReader \<Rightarrow> DQMStreamerReader" where
  "delay s = s"

datatype 'a step = Return 'a | Continue DQMStreamerReader | Throw error

definition after_open :: "error + bool \<times> DQMStreamerReader \<Rightarrow> 'a step" where
  "after_open r = (case r of Inl e \<Rightarrow> Throw e | Inr (_, s) \<Rightarrow> Continue s)"

text \<open>One pass through the body of the \<^verbatim>\<open>for (;;)\<close> of \<^verbatim>\<open>prepareNextEvent\<close>.\<close>

definition read_or_wait :: "DQMStreamerReader \<Rightarrow> (EventMsg option \<times> DQMStreamerReader) step" where
  "read_or_wait s =
     (if streamReader s = None then Continue (delay s)
      else case getEventMsg s of
             (None, s') \<Rightarrow> Continue (closeFile s')
           | (Some eview, s') \<Rightarrow> Return (Some eview, s'))"

definition rotate_or_read :: "DQMStreamerReader \<Rightarrow> (EventMsg option \<times> DQMStreamerReader) step" where
  "rotate_or_read s =
     (let (nxt, s1) = hasNext_r s in
      if nxt \<and> sint (minEventsPerLs s1) < sint (processedEventPerLs s1)
      then after_open (openNextFile s1)
      else read_or_wait s1)"

definition prepareNextEvent_body ::
  "DQMStreamerReader \<Rightarrow> (EventMsg option \<times> DQMStreamerReader) step" where
  "prepareNextEvent_body s =
     (if flagEndOfRunKills s \<and> fstate (fiterator s) \<noteq> OPEN
      then Return (None, closeFile s)
      else if streamReader s = None
      then (let (nxt, s1) = hasNext_r s in
            if \<not> nxt \<and> fstate (fiterator s1) = EOR
            then Return (None, closeFile s1)
            else (let (nxt2, s2) = hasNext_r s1 in
                  if nxt2 then after_open (openNextFile s2)
                  else rotate_or_read s2))
      else rotate_or_read s)"

partial_function (option) prepareNextEvent ::
  "DQMStreamerReader \<Rightarrow> (error + EventMsg option \<times> DQMStreamerReader) option" where
  "prepareNextEvent s =
     (case prepareNextEvent_body s of
        Return r \<Rightarrow> Some (Inr r)
      | Throw e \<Rightarrow> Some (Inl e)
      | Continue s' \<Rightarrow> prepareNextEvent s')"

section \<open>Delivering and skipping events\<close>

definition newHeader :: "StreamerInputFile \<Rightarrow> bool \<times> StreamerInputFile" where
  "newHeader r = (newHeaderFlag r, r\<lparr>newHeaderFlag := False\<rparr>)"

definition deliver :: "EventMsg \<Rightarrow> DQMStreamerReader \<Rightarrow> error + bool \<times> DQMStreamerReader" where
  "deliver eview s =
     (case streamReader s of
        None \<Rightarrow> Inl NullReader
      | Some r \<Rightarrow>
          let (fresh, r1) = newHeader r;
              s1 = s\<lparr>streamReader := Some r1\<rparr> in
          (case (if fresh then getHeaderMsg r1 else Inr (startMessage r1)) of
             Inl e \<Rightarrow> Inl e
           | Inr header \<Rightarrow>
               Inr (True, s1\<lparr>processedEventPerLs := processedEventPerLs s1 + 1\<rparr>)))"

definition checkNextEvent ::
  "DQMStreamerReader \<Rightarrow> (error + bool \<times> DQMStreamerReader) option" where
  "checkNextEvent s =
     (case prepareNextEvent s of
        None \<Rightarrow> None
      | Some (Inl e) \<Rightarrow> Some (Inl e)
      | Some (Inr (None, s1)) \<Rightarrow> Some (Inr (False, s1))
      | Some (Inr (Some eview, s1)) \<Rightarrow> Some (deliver eview s1))"

definition skipIt :: "DQMStreamerReader \<Rightarrow> EventMsg \<Rightarrow> bool" where
  "skipIt s evMsg =
     (case eventSkipperByID s of None \<Rightarrow> False | Some matches \<Rightarrow> matches evMsg)"

text \<open>
  The loop of \<^verbatim>\<open>skip\<close>, entered with the counter \<open>i\<close>:
  \<^verbatim>\<open>for (int i = 0; i != toSkip; ++i)\<close>.
\<close>

partial_function (option) skip_loop ::
  "int32 \<Rightarrow> int32 \<Rightarrow> DQMStreamerReader \<Rightarrow> (error + DQMStreamerReader) option" where
  "skip_loop i toSkip s =
     (if i \<noteq> toSkip
      then Option.bind (prepareNextEvent s)
             (\<lambda>r. case r of
                     Inl e \<Rightarrow> Some (Inl e)
                   | Inr (None, s1) \<Rightarrow> Some (Inr s1)
                   | Inr (Some evMsg, s1) \<Rightarrow>
                       skip_loop ((if skipIt s1 evMsg then i - 1 else i) + 1) toSkip s1)
      else Some (Inr s))"

definition skip :: "int32 \<Rightarrow> DQMStreamerReader \<Rightarrow> (error + DQMStreamerReader) option" where
  "skip toSkip s = skip_loop 0 toSkip s"

section \<open>Start-up\<close>

text \<open>
  \<^verbatim>\<open>reset_\<close>: the reader state passed in holds the iterator as
  \<^verbatim>\<open>fiterator_.initialise\<close> leaves it. \<open>wait_first_file\<close> is the first loop,
  which may wait for ever; \<open>fast_forward\<close> is the second one.
\<close>

partial_function (option) wait_first_file ::
  "DQMStreamerReader \<Rightarrow> (error + DQMStreamerReader) option" where
  "wait_first_file s =
     (let (nxt, s1) = hasNext_r s in
      if \<not> nxt then wait_first_file (delay s1)
      else (case openNextFile s1 of
              Inl e \<Rightarrow> Some (Inl e)
            | Inr (opened, s2) \<Rightarrow> if opened then Some (Inr s2) else wait_first_file s2))"

text \<open>
  The second loop ends: every pass removes the front entry of the queue, and the scans
  can only add the entries that the directory still has to show. \<open>backlog\<close> counts
  both.
\<close>

fun poll_weight :: "poll \<Rightarrow> nat" where
  "poll_weight NoChange = 1"
| "poll_weight (NewEntries es) = Suc (length es)"
| "poll_weight RunEnded = 1"

definition backlog :: "DQMFileIterator \<Rightarrow> nat" where
  "backlog f =
     length (queue f) + (if fstate f = EOR then 0 else sum_list (map poll_weight (polls f)))"

function fast_forward :: "DQMStreamerReader \<Rightarrow> error + DQMStreamerReader" where
  "fast_forward s =
     (let (nxt, s1) = hasNext_r s in
      if nxt
      then (case openNextFile s1 of
              Inl e \<Rightarrow> Inl e
            | Inr (opened, s2) \<Rightarrow> fast_forward s2)
      else Inr s1)"
  by pat_completeness auto
termination
proof (relation "measure (\<lambda>s. backlog (fiterator s))")
  show "wf (measure (\<lambda>s. backlog (fiterator s)))" by simp
next
  fix s :: DQMStreamerReader and x nxt s1 x2 opened s2
  assume "x = hasNext_r s" "(nxt, s1) = x" "nxt" "openNextFile s1 = Inr x2" "(opened, s2) = x2"
  then have h: "hasNext_r s = (True, s1)" and o: "openNextFile s1 = Inr (opened, s2)"
    by simp_all
  have "backlog (update_state f) \<le> backlog f" for f
    by (cases "polls f"; cases "hd (polls f)") (auto simp: backlog_def update_state_def)
  from this [of "fiterator s"] h
  have 1: "backlog (fiterator s1) \<le> backlog (fiterator s)" and 2: "queue (fiterator s1) \<noteq> []"
    by (auto simp: hasNext_r_def hasNext_def Let_def)
  have "fiterator s' = fiterator s0" if "openFile p s0 = Inr s'" for p s0 s'
    using that by (auto simp: openFile_def Let_def split: sum.splits if_splits)
  with o have 3: "fiterator s2 = pop (fiterator s1)"
    by (auto simp: openNextFile_def front_def closeFile_def Let_def
             split: sum.splits if_splits list.splits option.splits)
  from 2 have "backlog (pop (fiterator s1)) < backlog (fiterator s1)"
    by (cases "queue (fiterator s1)") (auto simp: backlog_def pop_def)
  with 1 3 show "(s2, s) \<in> measure (\<lambda>s. backlog (fiterator s))" by simp
qed

declare fast_forward.simps [simp del]

definition reset :: "DQMStreamerReader \<Rightarrow> (error + DQMStreamerReader) option" where
  "reset s =
     (case wait_first_file s of
        None \<Rightarrow> None
      | Some (Inl e) \<Rightarrow> Some (Inl e)
      | Some (Inr s1) \<Rightarrow>
          if flagSkipFirstLumis s1 then Some (fast_forward s1) else Some (Inr s1))"

section \<open>Example runs\<close>

text \<open>
  Concrete readers on which the theorems below are instantiated: three lumisections
  with their data files, and a reader as the configuration defaults leave it.
\<close>

definition ev :: "nat \<Rightarrow> EventMsg" where
  "ev n = \<lparr>run = 1, lumi = 1, event = n\<rparr>"

definition L1 :: LumiEntry where
  "L1 = \<lparr>ls = 1, datafilename = ''ls1.dat''\<rparr>"

definition L2 :: LumiEntry where
  "L2 = \<lparr>ls = 2, datafilename = ''ls2.dat''\<rparr>"

definition L3 :: LumiEntry where
  "L3 = \<lparr>ls = 3, datafilename = ''ls3.dat''\<rparr>"

definition idle :: DQMStreamerReader where
  "idle = \<lparr>fiterator = \<lparr>queue = [], fstate = OPEN, polls = []\<rparr>,
            streamReader = None,
            processedEventPerLs = 0,
            minEventsPerLs = 1,
            flagSkipFirstLumis = False,
            flagEndOfRunKills = False,
            flagDeleteDatFiles = False,
            eventSkipperByID = None,
            disk = Map.empty,
            consumed = []\<rparr>"

definition killed :: DQMStreamerReader where
  "killed = idle\<lparr>flagEndOfRunKills := True,
                 fiterator := \<lparr>queue = [L1, L2], fstate = EOR, polls = []\<rparr>\<rparr>"

definition disk3 :: filesystem where
  "disk3 = [''ls1.dat'' \<mapsto> \<lparr>header_code = INIT, events = [ev 1, ev 2, ev 3]\<rparr>,
            ''ls2.dat'' \<mapsto> \<lparr>header_code = INIT, events = [ev 4]\<rparr>,
            ''ls3.dat'' \<mapsto> \<lparr>header_code = INIT, events = [ev 5, ev 6]\<rparr>]"

definition corrupt :: DQMStreamerReader where
  "corrupt = idle\<lparr>fiterator := \<lparr>queue = [L1], fstate = OPEN, polls = []\<rparr>,
                  disk := [''ls1.dat'' \<mapsto> \<lparr>header_code = EVENT, events = [ev 1]\<rparr>]\<rparr>"

definition mid_file :: DQMStreamerReader where
  "mid_file = idle\<lparr>fiterator := \<lparr>queue = [L2, L3], fstate = OPEN, polls = []\<rparr>,
                   streamReader := Some \<lparr>fileName = ''ls1.dat'', startMessage = INIT,
                                          unread = [ev 3], newHeaderFlag = False\<rparr>,
                   processedEventPerLs := 2,
                   disk := disk3(''ls2.dat'' := None)\<rparr>"

definition deleting :: DQMStreamerReader where
  "deleting = idle\<lparr>fiterator := \<lparr>queue = [L1], fstate = OPEN, polls = []\<rparr>,
                   flagDeleteDatFiles := True,
                   disk := disk3\<rparr>"

definition just_opened :: DQMStreamerReader where
  "just_opened = deleting\<lparr>fiterator := \<lparr>queue = [], fstate = OPEN, polls = []\<rparr>,
                          streamReader := Some \<lparr>fileName = ''ls1.dat'', startMessage = INIT,
                                unread = [ev 1, ev 2, ev 3], newHeaderFlag = False\<rparr>,
                          processedEventPerLs := 0,
                          disk := disk3(''ls1.dat'' := None)\<rparr>"

definition at_threshold :: DQMStreamerReader where
  "at_threshold = idle\<lparr>fiterator := \<lparr>queue = [L2], fstate = OPEN, polls = []\<rparr>,
                   streamReader := Some \<lparr>fileName = ''ls1.dat'', startMessage = INIT,
                                          unread = [ev 3], newHeaderFlag = False\<rparr>,
                   processedEventPerLs := 2,
                   minEventsPerLs := 2,
                   disk := disk3\<rparr>"

definition gap :: DQMStreamerReader where
  "gap = idle\<lparr>fiterator := \<lparr>queue = [L1, L2], fstate = OPEN, polls = []\<rparr>,
              disk := disk3(''ls1.dat'' := None)\<rparr>"

definition draining :: DQMStreamerReader where
  "draining = idle\<lparr>fiterator := \<lparr>queue = [], fstate = OPEN, polls = [RunEnded]\<rparr>,
                   streamReader := Some \<lparr>fileName = ''ls2.dat'', startMessage = INIT,
                                          unread = [], newHeaderFlag = False\<rparr>,
                   processedEventPerLs := 1,
                   disk := disk3,
                   consumed := [ev 4]\<rparr>"

definition ended :: DQMStreamerReader where
  "ended = draining\<lparr>fiterator := \<lparr>queue = [], fstate = EOR, polls = []\<rparr>,
                    streamReader := None\<rparr>"

text \<open>
  \<open>calls n s\<close> is the result of the last of \<open>n + 1\<close> calls of
  \<^verbatim>\<open>checkNextEvent\<close> made one after the other, starting from \<open>s\<close>; a call that
  throws or never returns ends the sequence.
\<close>

fun calls :: "nat \<Rightarrow> DQMStreamerReader \<Rightarrow> (error + bool \<times> DQMStreamerReader) option" where
  "calls 0 s = checkNextEvent s"
| "calls (Suc n) s =
     (case checkNextEvent s of
        Some (Inr (_, s1)) \<Rightarrow> calls n s1
      | other \<Rightarrow> other)"

text \<open>
  \<open>counted s evs\<close> is the number of events of \<open>evs\<close> that the skip predicate of
  the reader does not match. \<open>skip_post k s s'\<close> describes a run of the loop of
  \<^verbatim>\<open>skip\<close> from \<open>s\<close> to \<open>s'\<close> that had \<open>k\<close> counter steps to go: the events
  read are appended to \<open>consumed\<close>; at most \<open>k\<close> of them are unmatched; when there
  are \<open>k\<close>, the last event read is unmatched (the loop stopped there); when there are
  fewer, the stream is at its end.
\<close>

definition counted :: "DQMStreamerReader \<Rightarrow> EventMsg list \<Rightarrow> nat" where
  "counted s evs = length (filter (\<lambda>e. \<not> skipIt s e) evs)"

definition skip_post :: "nat \<Rightarrow> DQMStreamerReader \<Rightarrow> DQMStreamerReader \<Rightarrow> bool" where
  "skip_post k s s' \<longleftrightarrow>
     (\<exists>evs. consumed s' = consumed s @ evs
        \<and> counted s evs \<le> k
        \<and> (counted s evs = k \<longrightarrow> evs = [] \<or> \<not> skipIt s (last evs))
        \<and> (counted s evs < k \<longrightarrow> prepareNextEvent s' = Some (Inr (None, s'))))"

definition skip_run :: "EventMsg list \<Rightarrow> EventMsg list \<Rightarrow> DQMStreamerReader" where
  "skip_run done left =
     idle\<lparr>eventSkipperByID := Some (\<lambda>m. event m = 5 \<or> event m = 9),
          streamReader := Some \<lparr>fileName = ''ls1.dat'', startMessage = INIT,
                                 unread = left, newHeaderFlag = False\<rparr>,
          consumed := done\<rparr>"

definition skipping :: DQMStreamerReader where
  "skipping = skip_run [] [ev 1, ev 2, ev 5, ev 3, ev 9, ev 4]"

definition skipped :: DQMStreamerReader where
  "skipped = skip_run [ev 1, ev 2, ev 5, ev 3] [ev 9, ev 4]"

definition flood :: DQMStreamerReader where
  "flood = idle\<lparr>streamReader := Some \<lparr>fileName = ''ls1.dat'', startMessage = INIT,
                          unread = replicate 4294967296 (ev 1), newHeaderFlag = False\<rparr>\<rparr>"

definition flood_left :: DQMStreamerReader where
  "flood_left = idle\<lparr>streamReader := Some \<lparr>fileName = ''ls1.dat'', startMessage = INIT,
                          unread = replicate 1 (ev 1), newHeaderFlag = False\<rparr>,
                      consumed := replicate 4294967295 (ev 1)\<rparr>"

text \<open>
  \<open>opened_on entry d rest s\<close> is the reader \<open>s\<close> after \<^verbatim>\<open>openNextFile_\<close> has
  opened the data file \<open>d\<close> of \<open>entry\<close>, the queue then holding \<open>rest\<close>.
\<close>

definition opened_on :: "LumiEntry \<Rightarrow> dat_file \<Rightarrow> LumiEntry list \<Rightarrow> DQMStreamerReader \<Rightarrow> DQMStreamerReader" where
  "opened_on entry d rest s =
     s\<lparr>fiterator := (fiterator s)\<lparr>queue := rest\<rparr>,
       streamReader := Some \<lparr>fileName = make_path_data entry, startMessage = INIT,
                              unread = events d, newHeaderFlag = False\<rparr>,
       processedEventPerLs := 0,
       disk := (if flagDeleteDatFiles s then unlink (make_path_data entry) (disk s) else disk s)\<rparr>"

definition starting :: DQMStreamerReader where
  "starting = idle\<lparr>fiterator := \<lparr>queue = [L1, L2, L3], fstate = OPEN, polls = []\<rparr>,
                   flagSkipFirstLumis := True,
                   disk := disk3\<rparr>"

definition fast_forwarded :: DQMStreamerReader where
  "fast_forwarded = starting\<lparr>fiterator := \<lparr>queue = [], fstate = OPEN, polls = []\<rparr>,
                     streamReader := Some \<lparr>fileName = ''ls3.dat'', startMessage = INIT,
                                            unread = [ev 5, ev 6], newHeaderFlag = False\<rparr>\<rparr>"

text \<open>
  The words of the spec for \<^verbatim>\<open>skip(n)\<close>, on a list of events: the events taken
  from the front of \<open>evs\<close> until \<open>n\<close> of them are not matched by the predicate, or
  until the list ends. \<open>closing\<close> is a reader on the last file of a run that has
  ended.
\<close>

fun skipped_prefix :: "nat \<Rightarrow> (EventMsg \<Rightarrow> bool) \<Rightarrow> EventMsg list \<Rightarrow> EventMsg list" where
  "skipped_prefix 0 matched evs = []"
| "skipped_prefix (Suc n) matched [] = []"
| "skipped_prefix (Suc n) matched (e # evs) =
     e # skipped_prefix (if matched e then Suc n else n) matched evs"

definition closing :: DQMStreamerReader where
  "closing = (skip_run [] [ev 1, ev 5, ev 2])\<lparr>fiterator := \<lparr>queue = [], fstate = EOR, polls = []\<rparr>\<rparr>"

section \<open>Basic facts about the operations\<close>

lemma closeFile_eq: "closeFile s = s\<lparr>streamReader := None\<rparr>"
  by (cases "streamReader s") (simp_all add: closeFile_def)

lemma closeFile_closed: "streamReader s = None \<Longrightarrow> closeFile s = s"
  by (simp add: closeFile_def)

lemma hasNext_r_eq:
  "hasNext_r s =
     (queue (update_state (fiterator s)) \<noteq> [], s\<lparr>fiterator := update_state (fiterator s)\<rparr>)"
  by (simp add: hasNext_r_def hasNext_def Let_def)

lemma update_state_queue: "\<exists>ys. queue (update_state f) = queue f @ ys"
  by (cases "polls f"; cases "hd (polls f)") (auto simp: update_state_def)

lemma update_state_front:
  "queue f = x # xs \<Longrightarrow> \<exists>ys. queue (update_state f) = x # ys"
  using update_state_queue [of f] by auto

lemma update_state_EOR: "fstate f = EOR \<Longrightarrow> update_state f = f"
  by (simp add: update_state_def)

lemma update_state_quiet: "polls f = [] \<Longrightarrow> update_state f = f"
  by (simp add: update_state_def)

lemma prepareNextEvent_Return:
  "prepareNextEvent_body s = Return r \<Longrightarrow> prepareNextEvent s = Some (Inr r)"
  by (subst prepareNextEvent.simps) simp

lemma prepareNextEvent_Throw:
  "prepareNextEvent_body s = Throw e \<Longrightarrow> prepareNextEvent s = Some (Inl e)"
  by (subst prepareNextEvent.simps) simp

lemma prepareNextEvent_Continue:
  "prepareNextEvent_body s = Continue s' \<Longrightarrow> prepareNextEvent s = prepareNextEvent s'"
  by (subst prepareNextEvent.simps) simp

lemma openFile_bad_header:
  assumes "disk s p = Some d" and "header_code d \<noteq> INIT"
  shows "openFile p s = Inl (FileReadError ''DQMStreamerReader::readHeader''
            ''received wrong message type: expected INIT, got '' (header_code d))"
  using assms by (simp add: openFile_def new_StreamerInputFile_def getHeaderMsg_def Let_def)

lemma openFile_good_header:
  assumes "disk s p = Some d" and "header_code d = INIT"
  shows "openFile p s = Inr (s\<lparr>streamReader := Some \<lparr>fileName = p, startMessage = INIT,
              unread = events d, newHeaderFlag = False\<rparr>,
            processedEventPerLs := 0,
            disk := (if flagDeleteDatFiles s then unlink p (disk s) else disk s)\<rparr>)"
  using assms by (simp add: openFile_def new_StreamerInputFile_def getHeaderMsg_def Let_def)

lemma openNextFile_missing:
  assumes "queue (fiterator s) = entry # rest"
    and "\<not> exists_file (disk s) (make_path_data entry)"
  shows "openNextFile s = Inr (False, s\<lparr>streamReader := None, fiterator := pop (fiterator s)\<rparr>)"
  using assms by (simp add: openNextFile_def front_def closeFile_eq Let_def)

lemma openNextFile_present:
  assumes "queue (fiterator s) = entry # rest"
    and "disk s (make_path_data entry) = Some d"
  shows "openNextFile s =
           (case openFile (make_path_data entry)
                   (s\<lparr>streamReader := None, fiterator := pop (fiterator s)\<rparr>) of
              Inl e \<Rightarrow> Inl e | Inr s3 \<Rightarrow> Inr (True, s3))"
  using assms by (simp add: openNextFile_def front_def closeFile_eq Let_def exists_file_def)

section \<open>End of run\<close>

text \<open>
  Claim C2. With \<^verbatim>\<open>endOfRunKills\<close> set, a call made while the iterator has left
  the state \<open>OPEN\<close> and no file is open returns the null event at once:
  \<^verbatim>\<open>prepareNextEvent\<close> yields no event and \<^verbatim>\<open>checkNextEvent\<close> yields \<open>False\<close>.
  The result is a normal return (\<open>Inr\<close>), not an exception, and the reader is left as
  it was: whatever entries the queue holds stay queued, unopened.
\<close>

theorem endOfRunKills_terminates:
  assumes "flagEndOfRunKills s" and "fstate (fiterator s) \<noteq> OPEN" and "streamReader s = None"
  shows "prepareNextEvent s = Some (Inr (None, s)) \<and> checkNextEvent s = Some (Inr (False, s))"
proof -
  from assms have "prepareNextEvent_body s = Return (None, s)"
    by (simp add: prepareNextEvent_body_def closeFile_closed)
  then have "prepareNextEvent s = Some (Inr (None, s))"
    by (rule prepareNextEvent_Return)
  then show ?thesis by (simp add: checkNextEvent_def)
qed

theorem endOfRunKills_terminates_witness:
  "flagEndOfRunKills killed \<and> fstate (fiterator killed) \<noteq> OPEN \<and> streamReader killed = None
   \<and> queue (fiterator killed) = [L1, L2]
   \<and> prepareNextEvent killed = Some (Inr (None, killed))
   \<and> checkNextEvent killed = Some (Inr (False, killed))"
proof -
  have h: "flagEndOfRunKills killed" "fstate (fiterator killed) \<noteq> OPEN" "streamReader killed = None"
    by (simp_all add: killed_def idle_def)
  have "queue (fiterator killed) = [L1, L2]"
    by (simp add: killed_def)
  with h endOfRunKills_terminates [OF h] show ?thesis by simp
qed

section \<open>One pass of the loop\<close>

lemma update_twice_front:
  "queue f = x # xs \<Longrightarrow> \<exists>ys. queue (update_state (update_state f)) = x # ys"
  using update_state_front update_state_front by blast

lemma body_no_file:
  assumes "streamReader s = None" and "queue (fiterator s) = entry # rest"
    and "\<not> (flagEndOfRunKills s \<and> fstate (fiterator s) \<noteq> OPEN)"
  shows "prepareNextEvent_body s =
           after_open (openNextFile (s\<lparr>fiterator := update_state (update_state (fiterator s))\<rparr>))"
proof -
  from assms(2) obtain ys where 1: "queue (update_state (fiterator s)) = entry # ys"
    using update_state_front by blast
  then obtain zs where 2: "queue (update_state (update_state (fiterator s))) = entry # zs"
    using update_state_front by blast
  from assms(1,3) 1 2 show ?thesis
    by (auto simp: prepareNextEvent_body_def hasNext_r_eq)
qed

lemma body_file_open:
  assumes "streamReader s = Some r"
    and "\<not> (flagEndOfRunKills s \<and> fstate (fiterator s) \<noteq> OPEN)"
  shows "prepareNextEvent_body s = rotate_or_read s"
  using assms by (auto simp: prepareNextEvent_body_def)

lemma rotate_or_read_eq:
  "rotate_or_read s =
     (let s1 = s\<lparr>fiterator := update_state (fiterator s)\<rparr> in
      if queue (fiterator s1) \<noteq> [] \<and> sint (minEventsPerLs s) < sint (processedEventPerLs s)
      then after_open (openNextFile s1)
      else read_or_wait s1)"
  by (simp add: rotate_or_read_def hasNext_r_eq Let_def)

lemma read_or_wait_event:
  assumes "streamReader s = Some r" and "unread r = e # es"
  shows "read_or_wait s =
           Return (Some e, s\<lparr>streamReader := Some (r\<lparr>unread := es\<rparr>), consumed := consumed s @ [e]\<rparr>)"
  using assms by (simp add: read_or_wait_def getEventMsg_def)

lemma read_or_wait_eof:
  assumes "streamReader s = Some r" and "unread r = []"
  shows "read_or_wait s = Continue (s\<lparr>streamReader := None\<rparr>)"
  using assms by (simp add: read_or_wait_def getEventMsg_def closeFile_eq)

lemma checkNextEvent_Throw:
  "prepareNextEvent s = Some (Inl e) \<Longrightarrow> checkNextEvent s = Some (Inl e)"
  by (simp add: checkNextEvent_def)

section \<open>Header check on open\<close>

text \<open>
  Claim C8. Opening a data file that is on disk raises an exception if and only if the
  code of its first record is not \<open>INIT\<close>. The exception is the \<open>FileReadError\<close>
  of \<^verbatim>\<open>getHeaderMsg\<close> with the text
  \<^verbatim>\<open>received wrong message type: expected INIT, got\<close> followed by the code found.
  Nothing catches it: when the file is the next one to open, \<^verbatim>\<open>prepareNextEvent\<close>
  and \<^verbatim>\<open>checkNextEvent\<close> end with this exception instead of going on to another
  entry.
\<close>

theorem wrong_header_is_fatal:
  assumes "disk s p = Some d"
  shows "((\<exists>e. openFile p s = Inl e) \<longleftrightarrow> header_code d \<noteq> INIT)
       \<and> (\<forall>e. openFile p s = Inl e \<longrightarrow>
             e = FileReadError ''DQMStreamerReader::readHeader''
                   ''received wrong message type: expected INIT, got '' (header_code d))
       \<and> (header_code d \<noteq> INIT \<and> streamReader s = None \<and> queue (fiterator s) = entry # rest
              \<and> make_path_data entry = p
              \<and> \<not> (flagEndOfRunKills s \<and> fstate (fiterator s) \<noteq> OPEN) \<longrightarrow>
            prepareNextEvent s = Some (Inl (FileReadError ''DQMStreamerReader::readHeader''
                   ''received wrong message type: expected INIT, got '' (header_code d)))
          \<and> checkNextEvent s = Some (Inl (FileReadError ''DQMStreamerReader::readHeader''
                   ''received wrong message type: expected INIT, got '' (header_code d))))"
proof (intro conjI allI impI)
  show "(\<exists>e. openFile p s = Inl e) \<longleftrightarrow> header_code d \<noteq> INIT"
    using openFile_bad_header [OF assms] openFile_good_header [OF assms]
    by (cases "header_code d = INIT") auto
next
  fix e assume "openFile p s = Inl e"
  then show "e = FileReadError ''DQMStreamerReader::readHeader''
                   ''received wrong message type: expected INIT, got '' (header_code d)"
    using openFile_bad_header [OF assms] openFile_good_header [OF assms]
    by (cases "header_code d = INIT") auto
next
  let ?err = "FileReadError ''DQMStreamerReader::readHeader''
                   ''received wrong message type: expected INIT, got '' (header_code d)"
  assume a: "header_code d \<noteq> INIT \<and> streamReader s = None \<and> queue (fiterator s) = entry # rest
              \<and> make_path_data entry = p
              \<and> \<not> (flagEndOfRunKills s \<and> fstate (fiterator s) \<noteq> OPEN)"
  let ?s2 = "s\<lparr>fiterator := update_state (update_state (fiterator s))\<rparr>"
  from a obtain zs where q: "queue (fiterator ?s2) = entry # zs"
    using update_twice_front [of "fiterator s" entry rest] by auto
  from a assms have dk: "disk ?s2 (make_path_data entry) = Some d" by simp
  have "disk (?s2\<lparr>streamReader := None, fiterator := pop (fiterator ?s2)\<rparr>) p = Some d"
    using assms by simp
  from openFile_bad_header [OF this] a
  have "openNextFile ?s2 = Inl ?err"
    by (simp add: openNextFile_present [OF q dk])
  moreover from a have "prepareNextEvent_body s = after_open (openNextFile ?s2)"
    by (intro body_no_file) auto
  ultimately have "prepareNextEvent_body s = Throw ?err"
    by (simp add: after_open_def)
  then have r: "prepareNextEvent s = Some (Inl ?err)"
    by (rule prepareNextEvent_Throw)
  then show "prepareNextEvent s = Some (Inl ?err)" .
  from r show "checkNextEvent s = Some (Inl ?err)" by (rule checkNextEvent_Throw)
qed

theorem wrong_header_is_fatal_witness:
  "disk corrupt ''ls1.dat'' = Some \<lparr>header_code = EVENT, events = [ev 1]\<rparr>
   \<and> openFile ''ls1.dat'' corrupt = Inl (FileReadError ''DQMStreamerReader::readHeader''
                   ''received wrong message type: expected INIT, got '' EVENT)
   \<and> prepareNextEvent corrupt = Some (Inl (FileReadError ''DQMStreamerReader::readHeader''
                   ''received wrong message type: expected INIT, got '' EVENT))"
proof -
  have d: "disk corrupt ''ls1.dat'' = Some \<lparr>header_code = EVENT, events = [ev 1]\<rparr>"
    by (simp add: corrupt_def)
  have h: "header_code \<lparr>header_code = EVENT, events = [ev 1]\<rparr> \<noteq> INIT
           \<and> streamReader corrupt = None \<and> queue (fiterator corrupt) = L1 # []
           \<and> make_path_data L1 = ''ls1.dat''
           \<and> \<not> (flagEndOfRunKills corrupt \<and> fstate (fiterator corrupt) \<noteq> OPEN)"
    by (simp add: corrupt_def idle_def make_path_data_def L1_def)
  from wrong_header_is_fatal [OF d, of L1 "[]"] h
  have "\<exists>e. openFile ''ls1.dat'' corrupt = Inl e"
    and "\<forall>e. openFile ''ls1.dat'' corrupt = Inl e \<longrightarrow>
             e = FileReadError ''DQMStreamerReader::readHeader''
                   ''received wrong message type: expected INIT, got '' EVENT"
    and "prepareNextEvent corrupt = Some (Inl (FileReadError ''DQMStreamerReader::readHeader''
                   ''received wrong message type: expected INIT, got '' EVENT))"
    by simp_all
  with d show ?thesis by blast
qed

section \<open>A missing data file while a file is open\<close>

text \<open>
  Claim C9. \<^verbatim>\<open>openNextFile_\<close> closes the open file and pops the front entry
  before it looks for the entry's data file. When that file is missing, the call
  returns \<open>False\<close> with no file open and the entry gone from the queue; the events
  that the closed file still held are not read (\<open>consumed\<close> is as before). In
  \<^verbatim>\<open>prepareNextEvent\<close> this is what the rotation on the event threshold does: the
  pass ends with the reader closed and the loop goes round again.
\<close>

theorem advance_not_atomic:
  assumes "streamReader s = Some r"
    and "queue (fiterator s) = entry # rest"
    and "\<not> exists_file (disk s) (make_path_data entry)"
  shows "openNextFile s = Inr (False, s\<lparr>streamReader := None, fiterator := pop (fiterator s)\<rparr>)
       \<and> queue (pop (fiterator s)) = rest
       \<and> (\<not> (flagEndOfRunKills s \<and> fstate (fiterator s) \<noteq> OPEN)
            \<and> sint (minEventsPerLs s) < sint (processedEventPerLs s) \<longrightarrow>
          prepareNextEvent_body s =
            Continue (s\<lparr>streamReader := None, fiterator := pop (update_state (fiterator s))\<rparr>))"
proof (intro conjI impI)
  show "openNextFile s = Inr (False, s\<lparr>streamReader := None, fiterator := pop (fiterator s)\<rparr>)"
    using assms(2,3) by (rule openNextFile_missing)
  show "queue (pop (fiterator s)) = rest"
    using assms(2) by (simp add: pop_def)
next
  assume a: "\<not> (flagEndOfRunKills s \<and> fstate (fiterator s) \<noteq> OPEN)
            \<and> sint (minEventsPerLs s) < sint (processedEventPerLs s)"
  let ?s1 = "s\<lparr>fiterator := update_state (fiterator s)\<rparr>"
  from assms(2) obtain ys where q: "queue (fiterator ?s1) = entry # ys"
    using update_state_front [of "fiterator s" entry rest] by auto
  from assms(3) have m: "\<not> exists_file (disk ?s1) (make_path_data entry)" by simp
  have "prepareNextEvent_body s = rotate_or_read s"
    using assms(1) a by (intro body_file_open) auto
  also have "\<dots> = after_open (openNextFile ?s1)"
    using q a by (simp add: rotate_or_read_eq)
  also have "\<dots> = Continue (s\<lparr>streamReader := None, fiterator := pop (update_state (fiterator s))\<rparr>)"
    by (simp add: openNextFile_missing [OF q m] after_open_def)
  finally show "prepareNextEvent_body s =
            Continue (s\<lparr>streamReader := None, fiterator := pop (update_state (fiterator s))\<rparr>)" .
qed

section \<open>What opening a file leaves behind\<close>

lemma openFile_result:
  assumes "openFile p s = Inr s'"
  shows "\<exists>d. disk s p = Some d \<and> header_code d = INIT
           \<and> s' = s\<lparr>streamReader := Some \<lparr>fileName = p, startMessage = INIT,
                        unread = events d, newHeaderFlag = False\<rparr>,
                      processedEventPerLs := 0,
                      disk := (if flagDeleteDatFiles s then unlink p (disk s) else disk s)\<rparr>"
proof (cases "disk s p")
  case None
  with assms show ?thesis by (simp add: openFile_def new_StreamerInputFile_def)
next
  case (Some d)
  show ?thesis
  proof (cases "header_code d = INIT")
    case True
    with Some assms openFile_good_header [OF Some True] show ?thesis by simp
  next
    case False
    with Some assms openFile_bad_header [OF Some False] show ?thesis by simp
  qed
qed

lemma openNextFile_result:
  assumes "openNextFile s = Inr (opened, s')"
  shows "\<exists>entry rest. queue (fiterator s) = entry # rest
           \<and> fiterator s' = pop (fiterator s)
           \<and> consumed s' = consumed s
           \<and> (if opened
               then \<exists>d. disk s (make_path_data entry) = Some d \<and> header_code d = INIT
                      \<and> streamReader s' = Some \<lparr>fileName = make_path_data entry,
                            startMessage = INIT, unread = events d, newHeaderFlag = False\<rparr>
                      \<and> processedEventPerLs s' = 0
               else disk s (make_path_data entry) = None
                      \<and> s' = s\<lparr>streamReader := None, fiterator := pop (fiterator s)\<rparr>)"
proof (cases "queue (fiterator s)")
  case Nil
  with assms show ?thesis by (simp add: openNextFile_def front_def closeFile_eq Let_def)
next
  case (Cons entry rest)
  show ?thesis
  proof (cases "disk s (make_path_data entry)")
    case None
    then have "\<not> exists_file (disk s) (make_path_data entry)" by (simp add: exists_file_def)
    from openNextFile_missing [OF Cons this] assms None Cons show ?thesis by auto
  next
    case (Some d)
    let ?s2 = "s\<lparr>streamReader := None, fiterator := pop (fiterator s)\<rparr>"
    from assms openNextFile_present [OF Cons Some]
    have o: "openFile (make_path_data entry) ?s2 = Inr s'" and t: "opened"
      by (auto split: sum.splits)
    from openFile_result [OF o] Some Cons t show ?thesis by auto
  qed
qed

lemma hasNext_r_quiet:
  "update_state (fiterator s) = fiterator s \<Longrightarrow> hasNext_r s = (queue (fiterator s) \<noteq> [], s)"
  by (simp add: hasNext_r_eq)

lemma rotate_or_read_quiet:
  assumes "update_state (fiterator s) = fiterator s"
  shows "rotate_or_read s =
     (if queue (fiterator s) \<noteq> [] \<and> sint (minEventsPerLs s) < sint (processedEventPerLs s)
      then after_open (openNextFile s)
      else read_or_wait s)"
  by (simp add: rotate_or_read_def hasNext_r_quiet [OF assms])

lemma body_no_file_quiet:
  assumes "update_state (fiterator s) = fiterator s"
    and "streamReader s = None" and "queue (fiterator s) \<noteq> []"
    and "\<not> (flagEndOfRunKills s \<and> fstate (fiterator s) \<noteq> OPEN)"
  shows "prepareNextEvent_body s = after_open (openNextFile s)"
  using assms(2-) by (auto simp: prepareNextEvent_body_def hasNext_r_quiet [OF assms(1)])

theorem advance_not_atomic_witness:
  "streamReader mid_file = Some \<lparr>fileName = ''ls1.dat'', startMessage = INIT,
                                  unread = [ev 3], newHeaderFlag = False\<rparr>
   \<and> queue (fiterator mid_file) = [L2, L3]
   \<and> \<not> exists_file (disk mid_file) (make_path_data L2)
   \<and> openNextFile mid_file =
       Inr (False, mid_file\<lparr>streamReader := None,
                             fiterator := \<lparr>queue = [L3], fstate = OPEN, polls = []\<rparr>\<rparr>)
   \<and> prepareNextEvent_body mid_file =
       Continue (mid_file\<lparr>streamReader := None,
                           fiterator := \<lparr>queue = [L3], fstate = OPEN, polls = []\<rparr>\<rparr>)"
proof -
  have h1: "streamReader mid_file = Some \<lparr>fileName = ''ls1.dat'', startMessage = INIT,
                                  unread = [ev 3], newHeaderFlag = False\<rparr>"
    and h2: "queue (fiterator mid_file) = L2 # [L3]"
    and h3: "\<not> exists_file (disk mid_file) (make_path_data L2)"
    by (simp_all add: mid_file_def idle_def exists_file_def make_path_data_def L2_def disk3_def)
  have k: "\<not> (flagEndOfRunKills mid_file \<and> fstate (fiterator mid_file) \<noteq> OPEN)
            \<and> sint (minEventsPerLs mid_file) < sint (processedEventPerLs mid_file)"
    by (simp add: mid_file_def idle_def)
  have p: "pop (fiterator mid_file) = \<lparr>queue = [L3], fstate = OPEN, polls = []\<rparr>"
    "pop (update_state (fiterator mid_file)) = \<lparr>queue = [L3], fstate = OPEN, polls = []\<rparr>"
    by (simp_all add: mid_file_def pop_def update_state_def)
  from advance_not_atomic [OF h1 h2 h3] k p h1 h2 h3 show ?thesis by simp
qed

section \<open>Rotation on the event threshold\<close>

text \<open>
  Claim C3. Take a pass of \<^verbatim>\<open>prepareNextEvent\<close> with a file open that still holds
  an event \<open>e\<close>, the end-of-run kill not firing. The pass scans the directory once.
  If the queue then has an entry and \<^verbatim>\<open>processedEventPerLs_ > minEventsPerLs_\<close>
  (signed, strict), the pass calls \<^verbatim>\<open>openNextFile_\<close>: the front entry leaves the
  queue, no event is read, and a file open afterwards is the one of that entry with
  the counter at zero. In every other case the call returns \<open>e\<close> from the file that
  is open, which stays open, and the queue keeps its entries. In particular a
  counter equal to the threshold does not rotate.
\<close>

theorem rotation_threshold:
  assumes "streamReader s = Some r" and "unread r = e # es"
    and "\<not> (flagEndOfRunKills s \<and> fstate (fiterator s) \<noteq> OPEN)"
  shows "(queue (update_state (fiterator s)) \<noteq> []
            \<and> sint (minEventsPerLs s) < sint (processedEventPerLs s) \<longrightarrow>
          prepareNextEvent_body s =
            after_open (openNextFile (s\<lparr>fiterator := update_state (fiterator s)\<rparr>))
          \<and> (\<forall>opened s'. openNextFile (s\<lparr>fiterator := update_state (fiterator s)\<rparr>) = Inr (opened, s') \<longrightarrow>
                queue (fiterator s') = tl (queue (update_state (fiterator s)))
                \<and> consumed s' = consumed s
                \<and> (\<forall>r'. streamReader s' = Some r' \<longrightarrow>
                      fileName r' = make_path_data (hd (queue (update_state (fiterator s))))
                      \<and> processedEventPerLs s' = 0)))
       \<and> (\<not> (queue (update_state (fiterator s)) \<noteq> []
               \<and> sint (minEventsPerLs s) < sint (processedEventPerLs s)) \<longrightarrow>
          prepareNextEvent s =
            Some (Inr (Some e, s\<lparr>fiterator := update_state (fiterator s),
                                 streamReader := Some (r\<lparr>unread := es\<rparr>),
                                 consumed := consumed s @ [e]\<rparr>)))
       \<and> (processedEventPerLs s = minEventsPerLs s \<longrightarrow>
          prepareNextEvent s =
            Some (Inr (Some e, s\<lparr>fiterator := update_state (fiterator s),
                                 streamReader := Some (r\<lparr>unread := es\<rparr>),
                                 consumed := consumed s @ [e]\<rparr>)))"
proof -
  let ?s1 = "s\<lparr>fiterator := update_state (fiterator s)\<rparr>"
  let ?c = "queue (update_state (fiterator s)) \<noteq> []
            \<and> sint (minEventsPerLs s) < sint (processedEventPerLs s)"
  have b: "prepareNextEvent_body s = rotate_or_read s"
    using assms(1,3) by (rule body_file_open)
  have A: "prepareNextEvent_body s = after_open (openNextFile ?s1)" if ?c
    using that b by (simp add: rotate_or_read_eq Let_def)
  have A': "queue (fiterator s') = tl (queue (update_state (fiterator s)))
                \<and> consumed s' = consumed s
                \<and> (\<forall>r'. streamReader s' = Some r' \<longrightarrow>
                      fileName r' = make_path_data (hd (queue (update_state (fiterator s))))
                      \<and> processedEventPerLs s' = 0)"
    if "openNextFile ?s1 = Inr (opened, s')" for opened s'
    using openNextFile_result [OF that] by (cases opened) (auto simp: pop_def)
  have B: "prepareNextEvent s =
            Some (Inr (Some e, s\<lparr>fiterator := update_state (fiterator s),
                                 streamReader := Some (r\<lparr>unread := es\<rparr>),
                                 consumed := consumed s @ [e]\<rparr>))" if "\<not> ?c"
  proof -
    from that b have "prepareNextEvent_body s = read_or_wait ?s1"
      by (auto simp: rotate_or_read_eq Let_def)
    also have "\<dots> = Return (Some e, ?s1\<lparr>streamReader := Some (r\<lparr>unread := es\<rparr>),
                                 consumed := consumed ?s1 @ [e]\<rparr>)"
      using assms(1,2) by (intro read_or_wait_event) simp_all
    finally show ?thesis by (simp add: prepareNextEvent_Return)
  qed
  have C: "\<not> ?c" if "processedEventPerLs s = minEventsPerLs s"
    using that by simp
  from A A' B C show ?thesis by blast
qed

theorem rotation_threshold_witness:
  "streamReader at_threshold = Some \<lparr>fileName = ''ls1.dat'', startMessage = INIT,
                                          unread = [ev 3], newHeaderFlag = False\<rparr>
   \<and> queue (fiterator at_threshold) = [L2]
   \<and> processedEventPerLs at_threshold = 2 \<and> minEventsPerLs at_threshold = 2
   \<and> prepareNextEvent at_threshold =
        Some (Inr (Some (ev 3),
          at_threshold\<lparr>streamReader := Some \<lparr>fileName = ''ls1.dat'', startMessage = INIT,
                                          unread = [], newHeaderFlag = False\<rparr>,
                        consumed := [ev 3]\<rparr>))
   \<and> prepareNextEvent_body (at_threshold\<lparr>processedEventPerLs := 3\<rparr>) =
        Continue (at_threshold\<lparr>fiterator := \<lparr>queue = [], fstate = OPEN, polls = []\<rparr>,
                    streamReader := Some \<lparr>fileName = ''ls2.dat'', startMessage = INIT,
                                          unread = [ev 4], newHeaderFlag = False\<rparr>,
                    processedEventPerLs := 0\<rparr>)"
proof -
  let ?r = "\<lparr>fileName = ''ls1.dat'', startMessage = INIT, unread = [ev 3], newHeaderFlag = False\<rparr>"
  let ?over = "at_threshold\<lparr>processedEventPerLs := 3\<rparr>"
  have h: "streamReader at_threshold = Some ?r" "unread ?r = ev 3 # []"
    "\<not> (flagEndOfRunKills at_threshold \<and> fstate (fiterator at_threshold) \<noteq> OPEN)"
    by (simp_all add: at_threshold_def idle_def)
  have h': "streamReader ?over = Some ?r"
    "\<not> (flagEndOfRunKills ?over \<and> fstate (fiterator ?over) \<noteq> OPEN)"
    by (simp_all add: at_threshold_def idle_def)
  have u: "update_state (fiterator at_threshold) = fiterator at_threshold"
    by (simp add: at_threshold_def update_state_def)
  have eq: "processedEventPerLs at_threshold = minEventsPerLs at_threshold"
    by (simp add: at_threshold_def)
  have 1: "prepareNextEvent at_threshold =
        Some (Inr (Some (ev 3),
          at_threshold\<lparr>streamReader := Some \<lparr>fileName = ''ls1.dat'', startMessage = INIT,
                                          unread = [], newHeaderFlag = False\<rparr>,
                        consumed := [ev 3]\<rparr>))"
    using rotation_threshold [OF h] eq u by (simp add: at_threshold_def idle_def)
  have q: "queue (fiterator ?over) = L2 # []"
    by (simp add: at_threshold_def)
  have d: "disk ?over (make_path_data L2) = Some \<lparr>header_code = INIT, events = [ev 4]\<rparr>"
    by (simp add: at_threshold_def make_path_data_def L2_def disk3_def)
  have d': "disk (?over\<lparr>streamReader := None, fiterator := pop (fiterator ?over)\<rparr>) (make_path_data L2)
       = Some \<lparr>header_code = INIT, events = [ev 4]\<rparr>"
    using d by simp
  have "header_code \<lparr>header_code = INIT, events = [ev 4]\<rparr> = INIT" by simp
  from openFile_good_header [OF d' this]
  have "openFile (make_path_data L2) (?over\<lparr>streamReader := None, fiterator := pop (fiterator ?over)\<rparr>) =
       Inr (at_threshold\<lparr>fiterator := \<lparr>queue = [], fstate = OPEN, polls = []\<rparr>,
                    streamReader := Some \<lparr>fileName = ''ls2.dat'', startMessage = INIT,
                                          unread = [ev 4], newHeaderFlag = False\<rparr>,
                    processedEventPerLs := 0\<rparr>)"
    by (simp add: at_threshold_def idle_def pop_def make_path_data_def L2_def)
  then have o: "openNextFile ?over = 
       Inr (True, at_threshold\<lparr>fiterator := \<lparr>queue = [], fstate = OPEN, polls = []\<rparr>,
                    streamReader := Some \<lparr>fileName = ''ls2.dat'', startMessage = INIT,
                                          unread = [ev 4], newHeaderFlag = False\<rparr>,
                    processedEventPerLs := 0\<rparr>)"
    by (simp add: openNextFile_present [OF q d])
  have c: "queue (update_state (fiterator ?over)) \<noteq> []
            \<and> sint (minEventsPerLs ?over) < sint (processedEventPerLs ?over)"
    using u by (simp add: at_threshold_def)
  have u': "?over\<lparr>fiterator := update_state (fiterator ?over)\<rparr> = ?over"
    using u by simp
  have 2: "prepareNextEvent_body ?over =
        Continue (at_threshold\<lparr>fiterator := \<lparr>queue = [], fstate = OPEN, polls = []\<rparr>,
                    streamReader := Some \<lparr>fileName = ''ls2.dat'', startMessage = INIT,
                                          unread = [ev 4], newHeaderFlag = False\<rparr>,
                    processedEventPerLs := 0\<rparr>)"
    using rotation_threshold [OF h'(1) h(2) h'(2)] c unfolding u' o by (simp add: after_open_def)
  from 1 2 h(1) show ?thesis by (simp add: at_threshold_def)
qed

section \<open>A missing data file\<close>

text \<open>
  Claim C7. When the data file of the front entry is not on disk, \<^verbatim>\<open>openNextFile_\<close>
  returns \<open>False\<close> normally: the entry is popped, no file is open and the per-lumi
  counter is what it was. \<^verbatim>\<open>prepareNextEvent\<close>, called with no file open, then goes
  round its loop with the entries that follow. When the directory is quiet, the
  following entry has its file on disk with an \<open>INIT\<close> header and at least one event,
  and the threshold is not negative, the call returns the first event of that
  following entry.
\<close>

theorem missing_file_skipped:
  assumes "queue (fiterator s) = entry # rest"
    and "\<not> exists_file (disk s) (make_path_data entry)"
  shows "openNextFile s = Inr (False, s\<lparr>streamReader := None, fiterator := pop (fiterator s)\<rparr>)
       \<and> processedEventPerLs (s\<lparr>streamReader := None, fiterator := pop (fiterator s)\<rparr>)
           = processedEventPerLs s
       \<and> queue (pop (fiterator s)) = rest
       \<and> (streamReader s = None \<and> \<not> (flagEndOfRunKills s \<and> fstate (fiterator s) \<noteq> OPEN) \<longrightarrow>
            prepareNextEvent s =
              prepareNextEvent (s\<lparr>fiterator := pop (update_state (update_state (fiterator s)))\<rparr>))
       \<and> (streamReader s = None \<and> \<not> (flagEndOfRunKills s \<and> fstate (fiterator s) \<noteq> OPEN)
            \<and> polls (fiterator s) = [] \<and> rest = entry2 # rest2
            \<and> disk s (make_path_data entry2) = Some d \<and> header_code d = INIT
            \<and> events d = e # es \<and> 0 \<le> sint (minEventsPerLs s) \<longrightarrow>
            prepareNextEvent s =
              Some (Inr (Some e,
                s\<lparr>fiterator := (fiterator s)\<lparr>queue := rest2\<rparr>,
                  streamReader := Some \<lparr>fileName = make_path_data entry2, startMessage = INIT,
                                         unread = es, newHeaderFlag = False\<rparr>,
                  processedEventPerLs := 0,
                  disk := (if flagDeleteDatFiles s then unlink (make_path_data entry2) (disk s)
                           else disk s),
                  consumed := consumed s @ [e]\<rparr>)))"
proof (intro conjI impI)
  show "openNextFile s = Inr (False, s\<lparr>streamReader := None, fiterator := pop (fiterator s)\<rparr>)"
    using assms by (rule openNextFile_missing)
  show "processedEventPerLs (s\<lparr>streamReader := None, fiterator := pop (fiterator s)\<rparr>)
           = processedEventPerLs s" by simp
  show "queue (pop (fiterator s)) = rest" using assms(1) by (simp add: pop_def)
next
  assume a: "streamReader s = None \<and> \<not> (flagEndOfRunKills s \<and> fstate (fiterator s) \<noteq> OPEN)"
  let ?s2 = "s\<lparr>fiterator := update_state (update_state (fiterator s))\<rparr>"
  from assms(1) obtain zs where q: "queue (fiterator ?s2) = entry # zs"
    using update_twice_front [of "fiterator s" entry rest] by auto
  from assms(2) have m: "\<not> exists_file (disk ?s2) (make_path_data entry)" by simp
  from a have "prepareNextEvent_body s = after_open (openNextFile ?s2)"
    using assms(1) by (intro body_no_file) auto
  also have "\<dots> = Continue (s\<lparr>fiterator := pop (update_state (update_state (fiterator s)))\<rparr>)"
    using a by (simp add: openNextFile_missing [OF q m] after_open_def)
  finally show "prepareNextEvent s =
              prepareNextEvent (s\<lparr>fiterator := pop (update_state (update_state (fiterator s)))\<rparr>)"
    by (rule prepareNextEvent_Continue)
next
  assume a: "streamReader s = None \<and> \<not> (flagEndOfRunKills s \<and> fstate (fiterator s) \<noteq> OPEN)
            \<and> polls (fiterator s) = [] \<and> rest = entry2 # rest2
            \<and> disk s (make_path_data entry2) = Some d \<and> header_code d = INIT
            \<and> events d = e # es \<and> 0 \<le> sint (minEventsPerLs s)"
  let ?f1 = "(fiterator s)\<lparr>queue := entry2 # rest2\<rparr>"
  let ?f2 = "(fiterator s)\<lparr>queue := rest2\<rparr>"
  let ?sa = "s\<lparr>fiterator := ?f1\<rparr>"
  let ?r = "\<lparr>fileName = make_path_data entry2, startMessage = INIT,
                                         unread = e # es, newHeaderFlag = False\<rparr>"
  let ?sb = "s\<lparr>fiterator := ?f2, streamReader := Some ?r, processedEventPerLs := 0,
                disk := (if flagDeleteDatFiles s then unlink (make_path_data entry2) (disk s)
                           else disk s)\<rparr>"
  have quiet: "update_state f = f" if "polls f = []" for f
    using that by (rule update_state_quiet)
  have u: "update_state (fiterator s) = fiterator s" "update_state ?f1 = ?f1" "update_state ?f2 = ?f2"
    using a by (simp_all add: quiet)
  \<comment> \<open>first pass: the missing entry is dropped\<close>
  have m: "\<not> exists_file (disk s) (make_path_data entry)" by (rule assms(2))
  have "prepareNextEvent_body s = after_open (openNextFile (s\<lparr>fiterator := update_state (update_state (fiterator s))\<rparr>))"
    using a assms(1) by (intro body_no_file) auto
  also have "\<dots> = after_open (openNextFile s)" by (simp add: u)
  also have "\<dots> = Continue ?sa"
    using a assms(1) by (simp add: openNextFile_missing [OF assms(1) m] after_open_def pop_def)
  finally have 1: "prepareNextEvent s = prepareNextEvent ?sa"
    by (rule prepareNextEvent_Continue)
  \<comment> \<open>second pass: the following entry is opened\<close>
  have qa: "queue (fiterator ?sa) = entry2 # rest2" by simp
  have da: "disk ?sa (make_path_data entry2) = Some d" using a by simp
  have da': "disk (?sa\<lparr>streamReader := None, fiterator := pop (fiterator ?sa)\<rparr>) (make_path_data entry2) = Some d"
    using a by simp
  have hd: "header_code d = INIT" using a by simp
  have "openFile (make_path_data entry2)
          (?sa\<lparr>streamReader := None, fiterator := pop (fiterator ?sa)\<rparr>) = Inr ?sb"
    using a openFile_good_header [OF da' hd] by (simp add: pop_def)
  then have oa: "openNextFile ?sa = Inr (True, ?sb)"
    by (simp add: openNextFile_present [OF qa da])
  have "prepareNextEvent_body ?sa = after_open (openNextFile (?sa\<lparr>fiterator := update_state (update_state (fiterator ?sa))\<rparr>))"
    using a by (intro body_no_file [where entry = entry2 and rest = rest2]) auto
  also have "\<dots> = after_open (openNextFile ?sa)" using u by simp
  also have "\<dots> = Continue ?sb" by (simp add: oa after_open_def)
  finally have 2: "prepareNextEvent ?sa = prepareNextEvent ?sb"
    by (rule prepareNextEvent_Continue)
  \<comment> \<open>third pass: its first event is read\<close>
  have "prepareNextEvent_body ?sb = rotate_or_read ?sb"
    using a by (intro body_file_open [where r = ?r]) auto
  also have "\<dots> = read_or_wait ?sb"
    using a u by (subst rotate_or_read_quiet) simp_all
  also have "\<dots> = Return (Some e, ?sb\<lparr>streamReader := Some (?r\<lparr>unread := es\<rparr>),
                                consumed := consumed ?sb @ [e]\<rparr>)"
    by (intro read_or_wait_event) simp_all
  finally have 3: "prepareNextEvent ?sb = Some (Inr (Some e, ?sb\<lparr>streamReader := Some (?r\<lparr>unread := es\<rparr>),
                                consumed := consumed ?sb @ [e]\<rparr>))"
    by (rule prepareNextEvent_Return)
  from 1 2 3 show "prepareNextEvent s =
              Some (Inr (Some e,
                s\<lparr>fiterator := (fiterator s)\<lparr>queue := rest2\<rparr>,
                  streamReader := Some \<lparr>fileName = make_path_data entry2, startMessage = INIT,
                                         unread = es, newHeaderFlag = False\<rparr>,
                  processedEventPerLs := 0,
                  disk := (if flagDeleteDatFiles s then unlink (make_path_data entry2) (disk s)
                           else disk s),
                  consumed := consumed s @ [e]\<rparr>))"
    by simp
qed

theorem missing_file_skipped_witness:
  "queue (fiterator gap) = [L1, L2]
   \<and> \<not> exists_file (disk gap) (make_path_data L1)
   \<and> openNextFile gap = Inr (False, gap\<lparr>fiterator := \<lparr>queue = [L2], fstate = OPEN, polls = []\<rparr>\<rparr>)
   \<and> prepareNextEvent gap =
        Some (Inr (Some (ev 4),
          gap\<lparr>fiterator := \<lparr>queue = [], fstate = OPEN, polls = []\<rparr>,
              streamReader := Some \<lparr>fileName = ''ls2.dat'', startMessage = INIT,
                                     unread = [], newHeaderFlag = False\<rparr>,
              consumed := [ev 4]\<rparr>))"
proof -
  let ?d = "\<lparr>header_code = INIT, events = [ev 4]\<rparr>"
  have h: "queue (fiterator gap) = L1 # [L2]" "\<not> exists_file (disk gap) (make_path_data L1)"
    by (simp_all add: gap_def idle_def exists_file_def make_path_data_def L1_def)
  have k: "streamReader gap = None \<and> \<not> (flagEndOfRunKills gap \<and> fstate (fiterator gap) \<noteq> OPEN)
            \<and> polls (fiterator gap) = [] \<and> [L2] = L2 # []
            \<and> disk gap (make_path_data L2) = Some ?d \<and> header_code ?d = INIT
            \<and> events ?d = ev 4 # [] \<and> 0 \<le> sint (minEventsPerLs gap)"
    by (simp add: gap_def idle_def make_path_data_def L2_def disk3_def)
  from missing_file_skipped [OF h, of L2 "[]" ?d "ev 4" "[]"] k
  have "openNextFile gap = Inr (False, gap\<lparr>streamReader := None, fiterator := pop (fiterator gap)\<rparr>)"
    and "prepareNextEvent gap =
              Some (Inr (Some (ev 4),
                gap\<lparr>fiterator := (fiterator gap)\<lparr>queue := []\<rparr>,
                  streamReader := Some \<lparr>fileName = make_path_data L2, startMessage = INIT,
                                         unread = [], newHeaderFlag = False\<rparr>,
                  processedEventPerLs := 0,
                  disk := (if flagDeleteDatFiles gap then unlink (make_path_data L2) (disk gap)
                           else disk gap),
                  consumed := consumed gap @ [ev 4]\<rparr>))"
    by blast+
  with h show ?thesis
    by (simp add: gap_def idle_def pop_def make_path_data_def L2_def)
qed

section \<open>Where the loop returns without an event\<close>

lemma after_open_not_Return: "after_open x \<noteq> Return r"
  by (simp add: after_open_def split: sum.splits prod.splits)

lemma read_or_wait_Return:
  "read_or_wait s = Return (evt, s') \<Longrightarrow> evt \<noteq> None"
  by (auto simp: read_or_wait_def split: if_splits prod.splits option.splits)

lemma rotate_or_read_Return:
  "rotate_or_read s = Return (evt, s') \<Longrightarrow> evt \<noteq> None"
  by (auto simp: rotate_or_read_eq Let_def after_open_not_Return split: if_splits dest: read_or_wait_Return)

lemma body_Return_None:
  assumes "prepareNextEvent_body s = Return (None, s')"
  shows "streamReader s' = None
       \<and> (flagEndOfRunKills s' \<and> fstate (fiterator s') \<noteq> OPEN
            \<or> queue (fiterator s') = [] \<and> fstate (fiterator s') = EOR)"
proof (cases "flagEndOfRunKills s \<and> fstate (fiterator s) \<noteq> OPEN")
  case True
  with assms have "s' = closeFile s" by (simp add: prepareNextEvent_body_def)
  with True show ?thesis by (simp add: closeFile_eq)
next
  case False
  show ?thesis
  proof (cases "streamReader s")
    case (Some r)
    with False assms have "rotate_or_read s = Return (None, s')"
      by (simp add: body_file_open)
    then show ?thesis by (auto dest: rotate_or_read_Return)
  next
    case None
    let ?s1 = "s\<lparr>fiterator := update_state (fiterator s)\<rparr>"
    let ?s2 = "?s1\<lparr>fiterator := update_state (fiterator ?s1)\<rparr>"
    show ?thesis
    proof (cases "queue (fiterator ?s1) = [] \<and> fstate (fiterator ?s1) = EOR")
      case True
      with None False assms have "s' = closeFile ?s1"
        by (auto simp: prepareNextEvent_body_def hasNext_r_eq)
      with True None show ?thesis by (simp add: closeFile_eq)
    next
      case F2: False
      with None False assms
      have "(if queue (fiterator ?s2) \<noteq> [] then after_open (openNextFile ?s2)
             else rotate_or_read ?s2) = Return (None, s')"
        by (auto simp: prepareNextEvent_body_def hasNext_r_eq)
      then show ?thesis
        by (auto simp: after_open_not_Return split: if_splits dest: rotate_or_read_Return)
    qed
  qed
qed

lemma body_at_end:
  assumes "streamReader s = None"
    and "flagEndOfRunKills s \<and> fstate (fiterator s) \<noteq> OPEN
            \<or> queue (fiterator s) = [] \<and> fstate (fiterator s) = EOR"
  shows "prepareNextEvent_body s = Return (None, s)"
proof (cases "flagEndOfRunKills s \<and> fstate (fiterator s) \<noteq> OPEN")
  case True
  with assms(1) show ?thesis by (simp add: prepareNextEvent_body_def closeFile_closed)
next
  case False
  with assms(2) have e: "queue (fiterator s) = []" "fstate (fiterator s) = EOR" by auto
  then have "update_state (fiterator s) = fiterator s" by (simp add: update_state_EOR)
  then have "hasNext_r s = (False, s)" using e by (simp add: hasNext_r_quiet)
  with False assms(1) e show ?thesis
    by (auto simp: prepareNextEvent_body_def closeFile_closed)
qed

lemma prepareNextEvent_end_state:
  assumes "prepareNextEvent s = Some y"
  shows "\<forall>s'. y = Inr (None, s') \<longrightarrow> prepareNextEvent_body s' = Return (None, s')"
proof (rule prepareNextEvent.raw_induct
         [where P = "\<lambda>s y. \<forall>s'. y = Inr (None, s') \<longrightarrow> prepareNextEvent_body s' = Return (None, s')",
          OF _ assms])
  fix f :: "DQMStreamerReader \<Rightarrow> (error + EventMsg option \<times> DQMStreamerReader) option"
    and s y
  assume IH: "\<And>x y. f x = Some y \<Longrightarrow>
                 \<forall>s'. y = Inr (None, s') \<longrightarrow> prepareNextEvent_body s' = Return (None, s')"
    and eq: "(case prepareNextEvent_body s of
                Return r \<Rightarrow> Some (Inr r)
              | Continue s' \<Rightarrow> f s'
              | Throw e \<Rightarrow> Some (Inl e)) = Some y"
  show "\<forall>s'. y = Inr (None, s') \<longrightarrow> prepareNextEvent_body s' = Return (None, s')"
  proof (cases "prepareNextEvent_body s")
    case (Return r)
    with eq have "y = Inr r" by simp
    with Return show ?thesis
      by (auto dest!: body_Return_None intro: body_at_end)
  next
    case (Continue s1)
    with eq have "f s1 = Some y" by simp
    then show ?thesis by (rule IH)
  next
    case (Throw e)
    with eq show ?thesis by auto
  qed
qed

lemma prepareNextEvent_permanent:
  assumes "prepareNextEvent s = Some (Inr (None, s'))"
  shows "prepareNextEvent s' = Some (Inr (None, s'))" and "streamReader s' = None"
proof -
  from prepareNextEvent_end_state [OF assms]
  have b: "prepareNextEvent_body s' = Return (None, s')" by simp
  then show "prepareNextEvent s' = Some (Inr (None, s'))" by (rule prepareNextEvent_Return)
  from body_Return_None [OF b] show "streamReader s' = None" by simp
qed

lemma checkNextEvent_False:
  "checkNextEvent s = Some (Inr (False, s')) \<longleftrightarrow> prepareNextEvent s = Some (Inr (None, s'))"
  by (auto simp: checkNextEvent_def deliver_def newHeader_def Let_def
           split: option.splits sum.splits prod.splits)

section \<open>End of stream is permanent\<close>

text \<open>
  Claim C6. Once \<^verbatim>\<open>checkNextEvent\<close> has returned \<open>False\<close> (the end of the stream),
  leaving the reader in state \<open>s'\<close>, every later call returns \<open>False\<close> again and
  leaves the reader in that same state \<open>s'\<close>: no file is open in it and none is
  opened, the queue, the disk and the events consumed stay as they are. The same
  holds for \<^verbatim>\<open>prepareNextEvent\<close>.
\<close>

theorem end_of_stream_permanent:
  assumes "checkNextEvent s = Some (Inr (False, s'))"
  shows "calls n s' = Some (Inr (False, s')) \<and> streamReader s' = None
       \<and> prepareNextEvent s' = Some (Inr (None, s'))"
proof -
  from assms have "prepareNextEvent s = Some (Inr (None, s'))"
    by (simp add: checkNextEvent_False)
  from prepareNextEvent_permanent [OF this]
  have p: "prepareNextEvent s' = Some (Inr (None, s'))" and r: "streamReader s' = None" .
  then have c: "checkNextEvent s' = Some (Inr (False, s'))"
    by (simp add: checkNextEvent_False)
  have "calls n s' = Some (Inr (False, s'))"
    by (induction n) (simp_all add: c)
  with p r show ?thesis by simp
qed

theorem end_of_stream_permanent_witness:
  "checkNextEvent draining = Some (Inr (False, ended))
   \<and> calls 2 ended = Some (Inr (False, ended))
   \<and> streamReader ended = None"
proof -
  let ?r = "\<lparr>fileName = ''ls2.dat'', startMessage = INIT, unread = [], newHeaderFlag = False\<rparr>"
  let ?s1 = "draining\<lparr>fiterator := update_state (fiterator draining)\<rparr>"
  have u: "update_state (fiterator draining) = \<lparr>queue = [], fstate = EOR, polls = []\<rparr>"
    by (simp add: draining_def update_state_def)
  have "prepareNextEvent_body draining = rotate_or_read draining"
    by (rule body_file_open [where r = ?r]) (simp_all add: draining_def idle_def)
  also have "\<dots> = read_or_wait ?s1"
    by (simp add: rotate_or_read_eq Let_def u)
  also have "\<dots> = Continue (?s1\<lparr>streamReader := None\<rparr>)"
    by (rule read_or_wait_eof [where r = ?r]) (simp_all add: draining_def)
  also have "?s1\<lparr>streamReader := None\<rparr> = ended"
    by (simp add: ended_def u)
  finally have 1: "prepareNextEvent draining = prepareNextEvent ended"
    by (rule prepareNextEvent_Continue)
  have "prepareNextEvent_body ended = Return (None, ended)"
    by (rule body_at_end) (simp_all add: ended_def)
  then have "prepareNextEvent ended = Some (Inr (None, ended))"
    by (rule prepareNextEvent_Return)
  with 1 have c: "checkNextEvent draining = Some (Inr (False, ended))"
    by (simp add: checkNextEvent_False)
  from end_of_stream_permanent [OF c, of 2] c show ?thesis by simp
qed

section \<open>What a call consumes\<close>

lemma openNextFile_keeps:
  assumes "openNextFile s = Inr (opened, s')"
  shows "consumed s' = consumed s \<and> eventSkipperByID s' = eventSkipperByID s"
proof -
  from openNextFile_result [OF assms] obtain entry rest where
    q: "queue (fiterator s) = entry # rest" by blast
  show ?thesis
  proof (cases "disk s (make_path_data entry)")
    case None
    then have "\<not> exists_file (disk s) (make_path_data entry)" by (simp add: exists_file_def)
    from openNextFile_missing [OF q this] assms show ?thesis by auto
  next
    case (Some d)
    from assms openNextFile_present [OF q Some]
    obtain s3 where "openFile (make_path_data entry)
        (s\<lparr>streamReader := None, fiterator := pop (fiterator s)\<rparr>) = Inr s3" and "s' = s3"
      by (auto split: sum.splits)
    from openFile_result [OF this(1)] this(2) show ?thesis by auto
  qed
qed

lemma after_open_Continue:
  "after_open (openNextFile s) = Continue s' \<Longrightarrow>
     consumed s' = consumed s \<and> eventSkipperByID s' = eventSkipperByID s"
  by (auto simp: after_open_def split: sum.splits prod.splits dest: openNextFile_keeps)

lemma read_or_wait_keeps:
  "read_or_wait s = Continue s' \<Longrightarrow>
     consumed s' = consumed s \<and> eventSkipperByID s' = eventSkipperByID s"
  "read_or_wait s = Return (evt, s') \<Longrightarrow>
     (\<exists>e. evt = Some e \<and> consumed s' = consumed s @ [e]) \<and> eventSkipperByID s' = eventSkipperByID s"
  by (auto simp: read_or_wait_def getEventMsg_def delay_def closeFile_eq
           split: if_splits option.splits list.splits)

lemma rotate_or_read_keeps:
  "rotate_or_read s = Continue s' \<Longrightarrow>
     consumed s' = consumed s \<and> eventSkipperByID s' = eventSkipperByID s"
  "rotate_or_read s = Return (evt, s') \<Longrightarrow>
     (\<exists>e. evt = Some e \<and> consumed s' = consumed s @ [e]) \<and> eventSkipperByID s' = eventSkipperByID s"
  by (auto simp: rotate_or_read_eq Let_def after_open_not_Return
           split: if_splits dest: read_or_wait_keeps after_open_Continue)

lemma body_keeps:
  "prepareNextEvent_body s = Continue s' \<Longrightarrow>
     consumed s' = consumed s \<and> eventSkipperByID s' = eventSkipperByID s"
  "prepareNextEvent_body s = Return (evt, s') \<Longrightarrow>
     consumed s' = consumed s @ (case evt of None \<Rightarrow> [] | Some e \<Rightarrow> [e])
     \<and> eventSkipperByID s' = eventSkipperByID s"
  by (auto simp: prepareNextEvent_body_def hasNext_r_eq closeFile_eq after_open_not_Return
           split: if_splits dest: rotate_or_read_keeps after_open_Continue)


lemma prepareNextEvent_keeps:
  assumes "prepareNextEvent s = Some y"
  shows "\<forall>evt s'. y = Inr (evt, s') \<longrightarrow>
           consumed s' = consumed s @ (case evt of None \<Rightarrow> [] | Some e \<Rightarrow> [e])
           \<and> eventSkipperByID s' = eventSkipperByID s"
proof (rule prepareNextEvent.raw_induct
         [where P = "\<lambda>s y. \<forall>evt s'. y = Inr (evt, s') \<longrightarrow>
           consumed s' = consumed s @ (case evt of None \<Rightarrow> [] | Some e \<Rightarrow> [e])
           \<and> eventSkipperByID s' = eventSkipperByID s",
          OF _ assms])
  fix f :: "DQMStreamerReader \<Rightarrow> (error + EventMsg option \<times> DQMStreamerReader) option"
    and s y
  assume IH: "\<And>x y. f x = Some y \<Longrightarrow>
                 \<forall>evt s'. y = Inr (evt, s') \<longrightarrow>
           consumed s' = consumed x @ (case evt of None \<Rightarrow> [] | Some e \<Rightarrow> [e])
           \<and> eventSkipperByID s' = eventSkipperByID x"
    and eq: "(case prepareNextEvent_body s of
                Return r \<Rightarrow> Some (Inr r)
              | Continue s' \<Rightarrow> f s'
              | Throw e \<Rightarrow> Some (Inl e)) = Some y"
  show "\<forall>evt s'. y = Inr (evt, s') \<longrightarrow>
           consumed s' = consumed s @ (case evt of None \<Rightarrow> [] | Some e \<Rightarrow> [e])
           \<and> eventSkipperByID s' = eventSkipperByID s"
  proof (cases "prepareNextEvent_body s")
    case (Return r)
    with eq have "y = Inr r" by simp
    with Return body_keeps(2) [of s] show ?thesis by auto
  next
    case (Continue s1)
    with eq have "f s1 = Some y" by simp
    from IH [OF this] body_keeps(1) [OF Continue] show ?thesis by simp
  next
    case (Throw e)
    with eq show ?thesis by auto
  qed
qed

lemma skipIt_cong: "eventSkipperByID s' = eventSkipperByID s \<Longrightarrow> skipIt s' = skipIt s"
  by (rule ext) (simp add: skipIt_def)

lemma counted_cong: "eventSkipperByID s' = eventSkipperByID s \<Longrightarrow> counted s' = counted s"
  by (rule ext) (simp add: counted_def skipIt_def)

lemma unat_countdown:
  fixes i n :: int32
  assumes "i \<noteq> n"
  shows "0 < unat (n - i)" and "unat (n - (i + 1)) = unat (n - i) - 1"
proof -
  from assms have nz: "n - i \<noteq> 0" by simp
  then show "0 < unat (n - i)" by (simp add: unat_gt_0)
  have e: "n - (i + 1) = (n - i) - 1" by simp
  show "unat (n - (i + 1)) = unat (n - i) - 1"
    unfolding e using nz by (rule unat_minus_one)
qed

lemma skip_post_done: "skip_post 0 s s"
  by (simp add: skip_post_def counted_def)

lemma skip_post_eos:
  assumes "prepareNextEvent s = Some (Inr (None, s'))" and "0 < k"
  shows "skip_post k s s'"
proof -
  from prepareNextEvent_keeps [OF assms(1)] have "consumed s' = consumed s @ []" by simp
  moreover have "prepareNextEvent s' = Some (Inr (None, s'))"
    using assms(1) by (rule prepareNextEvent_permanent)
  ultimately show ?thesis using assms(2)
    unfolding skip_post_def by (intro exI [of _ "[]"]) (simp add: counted_def)
qed

lemma skip_post_filtered:
  assumes "consumed s1 = consumed s @ [e]" and "eventSkipperByID s1 = eventSkipperByID s"
    and "skipIt s e" and "skip_post k s1 s'" and "0 < k"
  shows "skip_post k s s'"
proof -
  from assms(4) obtain evs where e: "consumed s' = consumed s1 @ evs"
    "counted s1 evs \<le> k" "counted s1 evs = k \<longrightarrow> evs = [] \<or> \<not> skipIt s1 (last evs)"
    "counted s1 evs < k \<longrightarrow> prepareNextEvent s' = Some (Inr (None, s'))"
    unfolding skip_post_def by blast
  have c: "counted s1 = counted s" "skipIt s1 = skipIt s"
    using counted_cong [OF assms(2)] skipIt_cong [OF assms(2)] by simp_all
  have ce: "counted s (e # evs) = counted s evs"
    using assms(3) by (simp add: counted_def)
  from e(3) assms(5) have "counted s evs = k \<longrightarrow> evs \<noteq> [] \<and> \<not> skipIt s (last evs)"
    unfolding c by (auto simp: counted_def)
  with e assms(1) show ?thesis
    unfolding skip_post_def c by (intro exI [of _ "e # evs"]) (auto simp: ce)
qed

lemma skip_post_counted:
  assumes "consumed s1 = consumed s @ [e]" and "eventSkipperByID s1 = eventSkipperByID s"
    and "\<not> skipIt s e" and "skip_post (k - 1) s1 s'" and "0 < k"
  shows "skip_post k s s'"
proof -
  from assms(4) obtain evs where e: "consumed s' = consumed s1 @ evs"
    "counted s1 evs \<le> k - 1" "counted s1 evs = k - 1 \<longrightarrow> evs = [] \<or> \<not> skipIt s1 (last evs)"
    "counted s1 evs < k - 1 \<longrightarrow> prepareNextEvent s' = Some (Inr (None, s'))"
    unfolding skip_post_def by blast
  have c: "counted s1 = counted s" "skipIt s1 = skipIt s"
    using counted_cong [OF assms(2)] skipIt_cong [OF assms(2)] by simp_all
  have ce: "counted s (e # evs) = Suc (counted s evs)"
    using assms(3) by (simp add: counted_def)
  from e(3) assms(3) have "counted s evs = k - 1 \<longrightarrow> \<not> skipIt s (last (e # evs))"
    unfolding c by auto
  with e assms(1,5) show ?thesis
    unfolding skip_post_def c by (intro exI [of _ "e # evs"]) (auto simp: ce)
qed

lemma skip_loop_post:
  assumes "skip_loop i n s = Some y"
  shows "\<forall>s'. y = Inr s' \<longrightarrow> skip_post (unat (n - i)) s s'"
proof (rule skip_loop.raw_induct
         [where P = "\<lambda>i n s y. \<forall>s'. y = Inr s' \<longrightarrow> skip_post (unat (n - i)) s s'", OF _ assms])
  fix f :: "int32 \<Rightarrow> int32 \<Rightarrow> DQMStreamerReader \<Rightarrow> (error + DQMStreamerReader) option"
    and i n :: int32 and s y
  assume IH: "\<And>i n s y. f i n s = Some y \<Longrightarrow> \<forall>s'. y = Inr s' \<longrightarrow> skip_post (unat (n - i)) s s'"
    and eq: "(if i \<noteq> n
              then Option.bind (prepareNextEvent s)
                (\<lambda>r. case r of
                     Inl e \<Rightarrow> Some (Inl e)
                   | Inr (None, s1) \<Rightarrow> Some (Inr s1)
                   | Inr (Some evMsg, s1) \<Rightarrow>
                       f ((if skipIt s1 evMsg then i - 1 else i) + 1) n s1)
              else Some (Inr s)) = Some y"
  show "\<forall>s'. y = Inr s' \<longrightarrow> skip_post (unat (n - i)) s s'"
  proof (cases "i = n")
    case True
    with eq show ?thesis by (auto simp: skip_post_done)
  next
    case False
    note pos = unat_countdown [OF False]
    from False eq obtain r where p: "prepareNextEvent s = Some r"
      and c: "(case r of
                     Inl e \<Rightarrow> Some (Inl e)
                   | Inr (None, s1) \<Rightarrow> Some (Inr s1)
                   | Inr (Some evMsg, s1) \<Rightarrow>
                       f ((if skipIt s1 evMsg then i - 1 else i) + 1) n s1) = Some y"
      by (auto simp: bind_eq_Some_conv)
    show ?thesis
    proof (cases r)
      case (Inl e)
      with c show ?thesis by auto
    next
      case (Inr x)
      obtain evt s1 where x: "x = (evt, s1)" by (cases x)
      show ?thesis
      proof (cases evt)
        case None
        with Inr x c have "y = Inr s1" by simp
        moreover from p Inr x None have "skip_post (unat (n - i)) s s1"
          by (intro skip_post_eos pos) simp
        ultimately show ?thesis by simp
      next
        case (Some e)
        from prepareNextEvent_keeps [OF p] Inr x Some
        have k: "consumed s1 = consumed s @ [e]" "eventSkipperByID s1 = eventSkipperByID s"
          by simp_all
        have sk: "skipIt s1 e = skipIt s e" using skipIt_cong [OF k(2)] by simp
        show ?thesis
        proof (cases "skipIt s e")
          case True
          with c Inr x Some sk have "f i n s1 = Some y" by simp
          from IH [OF this] show ?thesis
            by (auto intro: skip_post_filtered [OF k True _ pos(1)])
        next
          case F: False
          with c Inr x Some sk have "f (i + 1) n s1 = Some y" by simp
          from IH [OF this] show ?thesis
            by (auto simp: pos(2) intro: skip_post_counted [OF k F _ pos(1)])
        qed
      qed
    qed
  qed
qed

section \<open>The 32-bit counter\<close>

lemma uint_sint32:
  fixes n :: int32
  shows "uint n = sint n mod 4294967296"
proof -
  have "uint (word_of_int (sint n) :: int32) = sint n mod 2 ^ LENGTH(32)"
    by (rule uint_word_of_int)
  moreover have "(word_of_int (sint n) :: int32) = n"
    by (metis scast_eq scast_id)
  ultimately show ?thesis by simp
qed

lemma sint32_range:
  fixes n :: int32
  shows "- 2147483648 \<le> sint n" and "sint n < 2147483648"
  using sint_ge [of n] sint_lt [of n] by simp_all

lemma unat_of_nonneg:
  fixes n :: int32
  assumes "0 \<le> sint n"
  shows "unat n = nat (sint n)"
proof -
  from assms sint32_range(2) [of n] have "sint n mod 4294967296 = sint n"
    by simp
  then show ?thesis by (simp add: unat_eq_nat_uint uint_sint32)
qed

lemma unat_of_neg:
  fixes n :: int32
  assumes "sint n < 0"
  shows "int (unat n) = 4294967296 + sint n"
proof -
  have "(sint n + 4294967296) mod 4294967296 = sint n + 4294967296"
    using assms sint32_range(1) [of n] by (intro mod_pos_pos_trivial) simp_all
  then have "sint n mod 4294967296 = sint n + 4294967296"
    by simp
  then show ?thesis by (simp add: unat_eq_nat_uint uint_sint32)
qed

section \<open>Reading from a quiet directory\<close>

lemma prepareNextEvent_read:
  assumes "streamReader s = Some r" and "unread r = e # es"
    and "\<not> (flagEndOfRunKills s \<and> fstate (fiterator s) \<noteq> OPEN)"
    and "polls (fiterator s) = []" and "queue (fiterator s) = []"
  shows "prepareNextEvent s =
           Some (Inr (Some e, s\<lparr>streamReader := Some (r\<lparr>unread := es\<rparr>),
                                consumed := consumed s @ [e]\<rparr>))"
proof -
  have u: "update_state (fiterator s) = fiterator s"
    using assms(4) by (rule update_state_quiet)
  have "prepareNextEvent_body s = rotate_or_read s"
    using assms(1,3) by (rule body_file_open)
  also have "\<dots> = read_or_wait s"
    using assms(5) by (simp add: rotate_or_read_quiet [OF u])
  also have "\<dots> = Return (Some e, s\<lparr>streamReader := Some (r\<lparr>unread := es\<rparr>),
                                consumed := consumed s @ [e]\<rparr>)"
    using assms(1,2) by (rule read_or_wait_event)
  finally show ?thesis by (rule prepareNextEvent_Return)
qed

lemma skip_loop_done: "skip_loop n n s = Some (Inr s)"
  by (subst skip_loop.simps) simp

lemma skip_loop_read:
  assumes "i \<noteq> n" and "streamReader s = Some r" and "unread r = e # es"
    and "\<not> (flagEndOfRunKills s \<and> fstate (fiterator s) \<noteq> OPEN)"
    and "polls (fiterator s) = []" and "queue (fiterator s) = []"
  shows "skip_loop i n s =
           skip_loop ((if skipIt s e then i - 1 else i) + 1) n
             (s\<lparr>streamReader := Some (r\<lparr>unread := es\<rparr>), consumed := consumed s @ [e]\<rparr>)"
  by (subst skip_loop.simps) (simp add: assms(1) prepareNextEvent_read [OF assms(2-)] skipIt_def)

lemma skip_loop_replicate:
  assumes "streamReader s = Some r" and "unread r = replicate (k + m) e"
    and "\<not> (flagEndOfRunKills s \<and> fstate (fiterator s) \<noteq> OPEN)"
    and "polls (fiterator s) = []" and "queue (fiterator s) = []"
    and "\<not> skipIt s e" and "unat (n - i) = k"
  shows "skip_loop i n s =
           Some (Inr (s\<lparr>streamReader := Some (r\<lparr>unread := replicate m e\<rparr>),
                        consumed := consumed s @ replicate k e\<rparr>))"
  using assms
proof (induction k arbitrary: i s r)
  case 0
  then have "n = i" by (simp add: unat_eq_0)
  moreover from 0 have "s\<lparr>streamReader := Some (r\<lparr>unread := replicate m e\<rparr>),
                        consumed := consumed s @ replicate 0 e\<rparr> = s"
    by simp
  ultimately show ?case by (simp add: skip_loop_done)
next
  case (Suc k)
  let ?r1 = "r\<lparr>unread := replicate (k + m) e\<rparr>"
  let ?s1 = "s\<lparr>streamReader := Some ?r1, consumed := consumed s @ [e]\<rparr>"
  from Suc.prems(7) have ne: "i \<noteq> n" by auto
  from Suc.prems(2) have un: "unread r = e # replicate (k + m) e" by simp
  have step: "skip_loop i n s = skip_loop (i + 1) n ?s1"
    using skip_loop_read [OF ne Suc.prems(1) un Suc.prems(3,4,5)] Suc.prems(6) by simp
  have "unat (n - (i + 1)) = k"
    using unat_countdown(2) [OF ne] Suc.prems(7) by simp
  moreover have "\<not> skipIt ?s1 e" using Suc.prems(6) by (simp add: skipIt_def)
  ultimately have "skip_loop (i + 1) n ?s1 =
       Some (Inr (?s1\<lparr>streamReader := Some (?r1\<lparr>unread := replicate m e\<rparr>),
                        consumed := consumed ?s1 @ replicate k e\<rparr>))"
    using Suc.prems(3,4,5) by (intro Suc.IH) simp_all
  with step show ?case by simp
qed

lemma skip_run_step:
  assumes "i \<noteq> n"
  shows "skip_loop i n (skip_run done (e # es)) =
           skip_loop ((if event e = 5 \<or> event e = 9 then i - 1 else i) + 1) n
             (skip_run (done @ [e]) es)"
proof -
  let ?r = "\<lparr>fileName = ''ls1.dat'', startMessage = INIT, unread = e # es, newHeaderFlag = False\<rparr>"
  have "skip_loop i n (skip_run done (e # es)) =
           skip_loop ((if skipIt (skip_run done (e # es)) e then i - 1 else i) + 1) n
             ((skip_run done (e # es))\<lparr>streamReader := Some (?r\<lparr>unread := es\<rparr>),
                 consumed := consumed (skip_run done (e # es)) @ [e]\<rparr>)"
    by (rule skip_loop_read [OF assms]) (simp_all add: skip_run_def idle_def)
  then show ?thesis by (simp add: skip_run_def skipIt_def)
qed

lemma skip_example: "skip 3 skipping = Some (Inr skipped)"
proof -
  have "skip 3 skipping = skip_loop 0 3 (skip_run [] [ev 1, ev 2, ev 5, ev 3, ev 9, ev 4])"
    by (simp add: skip_def skipping_def)
  also have "\<dots> = skip_loop 1 3 (skip_run [ev 1] [ev 2, ev 5, ev 3, ev 9, ev 4])"
    by (subst skip_run_step) (simp_all add: ev_def)
  also have "\<dots> = skip_loop 2 3 (skip_run [ev 1, ev 2] [ev 5, ev 3, ev 9, ev 4])"
    by (subst skip_run_step) (simp_all add: ev_def)
  also have "\<dots> = skip_loop 2 3 (skip_run [ev 1, ev 2, ev 5] [ev 3, ev 9, ev 4])"
    by (subst skip_run_step) (simp_all add: ev_def)
  also have "\<dots> = skip_loop 3 3 (skip_run [ev 1, ev 2, ev 5, ev 3] [ev 9, ev 4])"
    by (subst skip_run_step) (simp_all add: ev_def)
  also have "\<dots> = Some (Inr skipped)"
    by (simp add: skip_loop_done skipped_def)
  finally show ?thesis .
qed

lemma draining_ends: "prepareNextEvent draining = Some (Inr (None, ended))"
proof -
  let ?r = "\<lparr>fileName = ''ls2.dat'', startMessage = INIT, unread = [], newHeaderFlag = False\<rparr>"
  let ?s1 = "draining\<lparr>fiterator := update_state (fiterator draining)\<rparr>"
  have u: "update_state (fiterator draining) = \<lparr>queue = [], fstate = EOR, polls = []\<rparr>"
    by (simp add: draining_def update_state_def)
  have "prepareNextEvent_body draining = rotate_or_read draining"
    by (rule body_file_open [where r = ?r]) (simp_all add: draining_def idle_def)
  also have "\<dots> = read_or_wait ?s1"
    by (simp add: rotate_or_read_eq Let_def u)
  also have "\<dots> = Continue (?s1\<lparr>streamReader := None\<rparr>)"
    by (rule read_or_wait_eof [where r = ?r]) (simp_all add: draining_def)
  also have "?s1\<lparr>streamReader := None\<rparr> = ended"
    by (simp add: ended_def u)
  finally have "prepareNextEvent draining = prepareNextEvent ended"
    by (rule prepareNextEvent_Continue)
  moreover have "prepareNextEvent_body ended = Return (None, ended)"
    by (rule body_at_end) (simp_all add: ended_def)
  ultimately show ?thesis by (simp add: prepareNextEvent_Return)
qed

lemma skip_draining: "skip (- 1) draining = Some (Inr ended)"
  unfolding skip_def by (subst skip_loop.simps) (simp add: draining_ends)

section \<open>Skipping within one file\<close>

lemma update_state_inert:
  "polls f = [] \<or> fstate f = EOR \<Longrightarrow> update_state f = f"
  by (auto simp: update_state_def)

lemma prepareNextEvent_read_file:
  assumes "streamReader s = Some r" and "unread r = e # es"
    and "\<not> (flagEndOfRunKills s \<and> fstate (fiterator s) \<noteq> OPEN)"
    and "polls (fiterator s) = [] \<or> fstate (fiterator s) = EOR"
    and "queue (fiterator s) = [] \<or> \<not> sint (minEventsPerLs s) < sint (processedEventPerLs s)"
  shows "prepareNextEvent s =
           Some (Inr (Some e, s\<lparr>streamReader := Some (r\<lparr>unread := es\<rparr>),
                                consumed := consumed s @ [e]\<rparr>))"
proof -
  have u: "update_state (fiterator s) = fiterator s"
    using assms(4) by (rule update_state_inert)
  have "prepareNextEvent_body s = rotate_or_read s"
    using assms(1,3) by (rule body_file_open)
  also have "\<dots> = read_or_wait s"
    using assms(5) by (auto simp: rotate_or_read_quiet [OF u])
  also have "\<dots> = Return (Some e, s\<lparr>streamReader := Some (r\<lparr>unread := es\<rparr>),
                                consumed := consumed s @ [e]\<rparr>)"
    using assms(1,2) by (rule read_or_wait_event)
  finally show ?thesis by (rule prepareNextEvent_Return)
qed

lemma prepareNextEvent_end_of_file:
  assumes "streamReader s = Some r" and "unread r = []"
    and "\<not> flagEndOfRunKills s" and "fstate (fiterator s) = EOR"
    and "queue (fiterator s) = []"
  shows "prepareNextEvent s = Some (Inr (None, s\<lparr>streamReader := None\<rparr>))"
proof -
  have u: "update_state (fiterator s) = fiterator s"
    using assms(4) by (simp add: update_state_EOR)
  have "prepareNextEvent_body s = rotate_or_read s"
    using assms(1,3) by (intro body_file_open) auto
  also have "\<dots> = read_or_wait s"
    using assms(5) by (simp add: rotate_or_read_quiet [OF u])
  also have "\<dots> = Continue (s\<lparr>streamReader := None\<rparr>)"
    using assms(1,2) by (rule read_or_wait_eof)
  finally have "prepareNextEvent s = prepareNextEvent (s\<lparr>streamReader := None\<rparr>)"
    by (rule prepareNextEvent_Continue)
  moreover have "prepareNextEvent_body (s\<lparr>streamReader := None\<rparr>) = Return (None, s\<lparr>streamReader := None\<rparr>)"
    using assms(4,5) by (intro body_at_end) simp_all
  ultimately show ?thesis by (simp add: prepareNextEvent_Return)
qed

lemma skip_loop_file:
  assumes "streamReader s = Some r" and "unread r = evs"
    and "\<not> (flagEndOfRunKills s \<and> fstate (fiterator s) \<noteq> OPEN)"
    and "polls (fiterator s) = [] \<or> fstate (fiterator s) = EOR"
    and "queue (fiterator s) = [] \<or> \<not> sint (minEventsPerLs s) < sint (processedEventPerLs s)"
    and "unat (n - i) \<le> counted s evs"
  shows "skip_loop i n s =
           Some (Inr (s\<lparr>streamReader :=
                          Some (r\<lparr>unread := drop (length (skipped_prefix (unat (n - i)) (skipIt s) evs)) evs\<rparr>),
                        consumed := consumed s @ skipped_prefix (unat (n - i)) (skipIt s) evs\<rparr>))"
  using assms
proof (induction evs arbitrary: i s r)
  case Nil
  then have "unat (n - i) = 0" by (simp add: counted_def)
  then have "n = i" by (simp add: unat_eq_0)
  moreover from Nil have "s\<lparr>streamReader := Some (r\<lparr>unread := []\<rparr>), consumed := consumed s\<rparr> = s"
    by simp
  ultimately show ?case by (simp add: skip_loop_done)
next
  case (Cons e es)
  show ?case
  proof (cases "i = n")
    case True
    moreover from Cons.prems have "s\<lparr>streamReader := Some (r\<lparr>unread := e # es\<rparr>), consumed := consumed s\<rparr> = s"
      by simp
    ultimately show ?thesis by (simp add: skip_loop_done)
  next
    case False
    note pos = unat_countdown [OF False]
    then obtain k where k: "unat (n - i) = Suc k" by (cases "unat (n - i)") auto
    let ?r1 = "r\<lparr>unread := es\<rparr>"
    let ?s1 = "s\<lparr>streamReader := Some ?r1, consumed := consumed s @ [e]\<rparr>"
    let ?i1 = "(if skipIt s e then i - 1 else i) + 1"
    have sk: "skipIt ?s1 = skipIt s" by (rule ext) (simp add: skipIt_def)
    have ck: "counted ?s1 = counted s" by (rule ext) (simp add: counted_def sk)
    have p: "prepareNextEvent s = Some (Inr (Some e, ?s1))"
      using Cons.prems by (intro prepareNextEvent_read_file) simp_all
    have step: "skip_loop i n s = skip_loop ?i1 n ?s1"
      by (subst skip_loop.simps) (simp add: False p sk)
    have u1: "unat (n - ?i1) = (if skipIt s e then Suc k else k)"
      using pos(2) k by simp
    have le: "unat (n - ?i1) \<le> counted ?s1 es"
      using Cons.prems(6) k unfolding u1 ck by (simp add: counted_def split: if_splits)
    have "skip_loop ?i1 n ?s1 =
           Some (Inr (?s1\<lparr>streamReader :=
                          Some (?r1\<lparr>unread := drop (length (skipped_prefix (unat (n - ?i1)) (skipIt ?s1) es)) es\<rparr>),
                        consumed := consumed ?s1 @ skipped_prefix (unat (n - ?i1)) (skipIt ?s1) es\<rparr>))"
      using Cons.prems(3,4,5) le by (intro Cons.IH) simp_all
    with step show ?thesis
      unfolding u1 sk k by simp
  qed
qed

lemma skip_loop_file_ends:
  assumes "streamReader s = Some r" and "unread r = evs"
    and "\<not> flagEndOfRunKills s" and "fstate (fiterator s) = EOR"
    and "queue (fiterator s) = []"
    and "counted s evs < unat (n - i)"
  shows "skip_loop i n s = Some (Inr (s\<lparr>streamReader := None, consumed := consumed s @ evs\<rparr>))"
  using assms
proof (induction evs arbitrary: i s r)
  case Nil
  then have ne: "i \<noteq> n" by auto
  have "prepareNextEvent s = Some (Inr (None, s\<lparr>streamReader := None\<rparr>))"
    using Nil by (intro prepareNextEvent_end_of_file) simp_all
  then show ?case by (subst skip_loop.simps) (simp add: ne)
next
  case (Cons e es)
  from Cons.prems(6) have ne: "i \<noteq> n" by auto
  note pos = unat_countdown [OF ne]
  let ?r1 = "r\<lparr>unread := es\<rparr>"
  let ?s1 = "s\<lparr>streamReader := Some ?r1, consumed := consumed s @ [e]\<rparr>"
  let ?i1 = "(if skipIt s e then i - 1 else i) + 1"
  have sk: "skipIt ?s1 = skipIt s" by (rule ext) (simp add: skipIt_def)
  have ck: "counted ?s1 = counted s" by (rule ext) (simp add: counted_def sk)
  have p: "prepareNextEvent s = Some (Inr (Some e, ?s1))"
    using Cons.prems by (intro prepareNextEvent_read_file) simp_all
  have step: "skip_loop i n s = skip_loop ?i1 n ?s1"
    by (subst skip_loop.simps) (simp add: ne p sk)
  have lt: "counted ?s1 es < unat (n - ?i1)"
    using Cons.prems(6) pos unfolding ck by (simp add: counted_def split: if_splits)
  have "skip_loop ?i1 n ?s1 =
          Some (Inr (?s1\<lparr>streamReader := None, consumed := consumed ?s1 @ es\<rparr>))"
    using Cons.IH [of ?s1 ?r1 ?i1] Cons.prems(3,4,5) lt by simp
  with step show ?case by simp
qed

lemma skipped_prefix_is_prefix: "\<exists>rest. evs = skipped_prefix k matched evs @ rest"
  by (induction k matched evs rule: skipped_prefix.induct) auto

lemma skipped_prefix_count:
  "length (filter (\<lambda>e. \<not> matched e) (skipped_prefix k matched evs))
     = min k (length (filter (\<lambda>e. \<not> matched e) evs))"
  by (induction k matched evs rule: skipped_prefix.induct) auto

lemma skipped_prefix_Nil:
  "skipped_prefix k matched evs = [] \<longleftrightarrow> k = 0 \<or> evs = []"
  by (cases k; cases evs) simp_all

lemma skipped_prefix_last:
  "k \<le> length (filter (\<lambda>e. \<not> matched e) evs) \<Longrightarrow> skipped_prefix k matched evs \<noteq> [] \<Longrightarrow>
     \<not> matched (last (skipped_prefix k matched evs))"
proof (induction k matched evs rule: skipped_prefix.induct)
  case (3 n matched e evs)
  show ?case
  proof (cases "matched e")
    case True
    with "3.prems"(1) have "evs \<noteq> []" by auto
    then have "skipped_prefix (Suc n) matched evs \<noteq> []" by (simp add: skipped_prefix_Nil)
    with 3 True show ?thesis by simp
  next
    case False
    show ?thesis
    proof (cases "skipped_prefix n matched evs = []")
      case True
      with False show ?thesis by simp
    next
      case F: False
      with 3 False show ?thesis by simp
    qed
  qed
qed simp_all

section \<open>Skipping events\<close>

text \<open>
  Claim C4, for \<open>n \<ge> 0\<close>. Whenever \<^verbatim>\<open>skip(n)\<close> returns, the events it has read
  are appended to \<open>consumed\<close> and at most \<open>n\<close> of them are not matched by the skip
  predicate; with exactly \<open>n\<close> unmatched the last event read is an unmatched one (or
  nothing was read, for \<open>n = 0\<close>), and with fewer the stream is at its end.

  \<^verbatim>\<open>skip(n)\<close> does return, with the result the spec words give, when a file is open,
  the directory shows nothing new, and no rotation is due (the queue is empty or the
  threshold is not exceeded). If the events left in the file hold \<open>n\<close> unmatched ones,
  it reads exactly \<open>skipped_prefix n\<close> of them, the rest stays unread in the open file.
  If they hold fewer and the run has ended with nothing queued, it reads them all,
  closes the file and returns at the end of the stream. \<open>skipped_prefix\<close> is a prefix
  of the events that holds \<open>n\<close> unmatched events (or all there are) and, when it
  holds \<open>n\<close>, ends with an unmatched one.

  In the run of the spec, with the predicate matching the event numbers 5 and 9 and the
  stream 1, 2, 5, 3, 9, 4, \<^verbatim>\<open>skip(3)\<close> returns after reading the four events
  1, 2, 5, 3, and 9, 4 are still unread.
\<close>

theorem skip_compensation:
  "(0 \<le> sint n \<and> skip n s = Some (Inr s') \<longrightarrow>
      (\<exists>evs. consumed s' = consumed s @ evs
         \<and> counted s evs \<le> nat (sint n)
         \<and> (counted s evs = nat (sint n) \<longrightarrow> evs = [] \<or> \<not> skipIt s (last evs))
         \<and> (counted s evs < nat (sint n) \<longrightarrow> prepareNextEvent s' = Some (Inr (None, s')))))
   \<and> (0 \<le> sint n \<and> streamReader s = Some r
        \<and> \<not> (flagEndOfRunKills s \<and> fstate (fiterator s) \<noteq> OPEN)
        \<and> (polls (fiterator s) = [] \<or> fstate (fiterator s) = EOR)
        \<and> (queue (fiterator s) = [] \<or> \<not> sint (minEventsPerLs s) < sint (processedEventPerLs s))
        \<and> nat (sint n) \<le> counted s (unread r) \<longrightarrow>
      skip n s =
        Some (Inr (s\<lparr>streamReader :=
                       Some (r\<lparr>unread := drop (length (skipped_prefix (nat (sint n)) (skipIt s) (unread r)))
                                            (unread r)\<rparr>),
                     consumed := consumed s @ skipped_prefix (nat (sint n)) (skipIt s) (unread r)\<rparr>)))
   \<and> (0 \<le> sint n \<and> streamReader s = Some r
        \<and> \<not> flagEndOfRunKills s \<and> fstate (fiterator s) = EOR \<and> queue (fiterator s) = []
        \<and> counted s (unread r) < nat (sint n) \<longrightarrow>
      skip n s = Some (Inr (s\<lparr>streamReader := None, consumed := consumed s @ unread r\<rparr>))
      \<and> prepareNextEvent (s\<lparr>streamReader := None, consumed := consumed s @ unread r\<rparr>)
          = Some (Inr (None, s\<lparr>streamReader := None, consumed := consumed s @ unread r\<rparr>)))
   \<and> (\<exists>rest. evs = skipped_prefix k matched evs @ rest)
   \<and> length (filter (\<lambda>e. \<not> matched e) (skipped_prefix k matched evs))
        = min k (length (filter (\<lambda>e. \<not> matched e) evs))
   \<and> (k \<le> length (filter (\<lambda>e. \<not> matched e) evs) \<and> skipped_prefix k matched evs \<noteq> [] \<longrightarrow>
        \<not> matched (last (skipped_prefix k matched evs)))
   \<and> skip 3 skipping = Some (Inr skipped)
   \<and> consumed skipped = consumed skipping @ [ev 1, ev 2, ev 5, ev 3]
   \<and> map_option unread (streamReader skipped) = Some [ev 9, ev 4]"
proof (intro conjI impI)
  assume a: "0 \<le> sint n \<and> skip n s = Some (Inr s')"
  then have "skip_loop 0 n s = Some (Inr s')" by (simp add: skip_def)
  from skip_loop_post [OF this] have "skip_post (unat n) s s'" by simp
  with a show "\<exists>evs. consumed s' = consumed s @ evs
         \<and> counted s evs \<le> nat (sint n)
         \<and> (counted s evs = nat (sint n) \<longrightarrow> evs = [] \<or> \<not> skipIt s (last evs))
         \<and> (counted s evs < nat (sint n) \<longrightarrow> prepareNextEvent s' = Some (Inr (None, s')))"
    by (simp add: skip_post_def unat_of_nonneg)
next
  assume a: "0 \<le> sint n \<and> streamReader s = Some r
        \<and> \<not> (flagEndOfRunKills s \<and> fstate (fiterator s) \<noteq> OPEN)
        \<and> (polls (fiterator s) = [] \<or> fstate (fiterator s) = EOR)
        \<and> (queue (fiterator s) = [] \<or> \<not> sint (minEventsPerLs s) < sint (processedEventPerLs s))
        \<and> nat (sint n) \<le> counted s (unread r)"
  then have u: "unat n = nat (sint n)" by (simp add: unat_of_nonneg)
  have z: "n - 0 = n" by simp
  from a have h: "streamReader s = Some r" "unread r = unread r"
    "\<not> (flagEndOfRunKills s \<and> fstate (fiterator s) \<noteq> OPEN)"
    "polls (fiterator s) = [] \<or> fstate (fiterator s) = EOR"
    "queue (fiterator s) = [] \<or> \<not> sint (minEventsPerLs s) < sint (processedEventPerLs s)"
    "unat (n - 0) \<le> counted s (unread r)"
    by (simp_all add: u)
  show "skip n s =
        Some (Inr (s\<lparr>streamReader :=
                       Some (r\<lparr>unread := drop (length (skipped_prefix (nat (sint n)) (skipIt s) (unread r)))
                                            (unread r)\<rparr>),
                     consumed := consumed s @ skipped_prefix (nat (sint n)) (skipIt s) (unread r)\<rparr>))"
    using skip_loop_file [OF h] unfolding z u skip_def .
next
  assume a: "0 \<le> sint n \<and> streamReader s = Some r
        \<and> \<not> flagEndOfRunKills s \<and> fstate (fiterator s) = EOR \<and> queue (fiterator s) = []
        \<and> counted s (unread r) < nat (sint n)"
  then have u: "unat n = nat (sint n)" by (simp add: unat_of_nonneg)
  have z: "n - 0 = n" by simp
  from a have h: "streamReader s = Some r" "unread r = unread r"
    "\<not> flagEndOfRunKills s" "fstate (fiterator s) = EOR" "queue (fiterator s) = []"
    "counted s (unread r) < unat (n - 0)"
    by (simp_all add: u)
  show "skip n s = Some (Inr (s\<lparr>streamReader := None, consumed := consumed s @ unread r\<rparr>))"
    unfolding skip_def by (rule skip_loop_file_ends [OF h])
  have "prepareNextEvent_body (s\<lparr>streamReader := None, consumed := consumed s @ unread r\<rparr>)
          = Return (None, s\<lparr>streamReader := None, consumed := consumed s @ unread r\<rparr>)"
    using a by (intro body_at_end) simp_all
  then show "prepareNextEvent (s\<lparr>streamReader := None, consumed := consumed s @ unread r\<rparr>)
          = Some (Inr (None, s\<lparr>streamReader := None, consumed := consumed s @ unread r\<rparr>))"
    by (rule prepareNextEvent_Return)
next
  show "\<exists>rest. evs = skipped_prefix k matched evs @ rest" by (rule skipped_prefix_is_prefix)
  show "length (filter (\<lambda>e. \<not> matched e) (skipped_prefix k matched evs))
        = min k (length (filter (\<lambda>e. \<not> matched e) evs))" by (rule skipped_prefix_count)
next
  assume "k \<le> length (filter (\<lambda>e. \<not> matched e) evs) \<and> skipped_prefix k matched evs \<noteq> []"
  then show "\<not> matched (last (skipped_prefix k matched evs))"
    using skipped_prefix_last by blast
next
  show "skip 3 skipping = Some (Inr skipped)" by (rule skip_example)
  show "consumed skipped = consumed skipping @ [ev 1, ev 2, ev 5, ev 3]"
    by (simp add: skipped_def skipping_def skip_run_def)
  show "map_option unread (streamReader skipped) = Some [ev 9, ev 4]"
    by (simp add: skipped_def skip_run_def)
qed

theorem skip_compensation_witness:
  "0 \<le> sint (3 :: int32)
   \<and> nat (sint (3 :: int32)) \<le> counted skipping [ev 1, ev 2, ev 5, ev 3, ev 9, ev 4]
   \<and> skipped_prefix (nat (sint (3 :: int32))) (skipIt skipping) [ev 1, ev 2, ev 5, ev 3, ev 9, ev 4]
        = [ev 1, ev 2, ev 5, ev 3]
   \<and> skip 3 skipping = Some (Inr skipped)
   \<and> counted skipping [ev 1, ev 2, ev 5, ev 3] = nat (sint (3 :: int32))
   \<and> \<not> skipIt skipping (last [ev 1, ev 2, ev 5, ev 3])
   \<and> counted closing [ev 1, ev 5, ev 2] < nat (sint (3 :: int32))
   \<and> skip 3 closing = Some (Inr (closing\<lparr>streamReader := None, consumed := [ev 1, ev 5, ev 2]\<rparr>))"
proof -
  let ?r = "\<lparr>fileName = ''ls1.dat'', startMessage = INIT,
             unread = [ev 1, ev 2, ev 5, ev 3, ev 9, ev 4], newHeaderFlag = False\<rparr>"
  let ?rc = "\<lparr>fileName = ''ls1.dat'', startMessage = INIT,
             unread = [ev 1, ev 5, ev 2], newHeaderFlag = False\<rparr>"
  have p: "0 \<le> sint (3 :: int32)" and n3: "nat (sint (3 :: int32)) = Suc (Suc (Suc 0))" by simp_all
  have m: "skipIt skipping (ev k) \<longleftrightarrow> k = 5 \<or> k = 9" for k
    by (simp add: skipIt_def skipping_def skip_run_def ev_def)
  have mc: "skipIt closing (ev k) \<longleftrightarrow> k = 5 \<or> k = 9" for k
    by (simp add: skipIt_def closing_def skip_run_def ev_def)
  have c6: "nat (sint (3 :: int32)) \<le> counted skipping [ev 1, ev 2, ev 5, ev 3, ev 9, ev 4]"
    by (simp add: counted_def m)
  have sp: "skipped_prefix (nat (sint (3 :: int32))) (skipIt skipping)
              [ev 1, ev 2, ev 5, ev 3, ev 9, ev 4] = [ev 1, ev 2, ev 5, ev 3]"
    unfolding n3 by (simp add: m)
  have h: "0 \<le> sint (3 :: int32) \<and> streamReader skipping = Some ?r
        \<and> \<not> (flagEndOfRunKills skipping \<and> fstate (fiterator skipping) \<noteq> OPEN)
        \<and> (polls (fiterator skipping) = [] \<or> fstate (fiterator skipping) = EOR)
        \<and> (queue (fiterator skipping) = []
             \<or> \<not> sint (minEventsPerLs skipping) < sint (processedEventPerLs skipping))
        \<and> nat (sint (3 :: int32)) \<le> counted skipping (unread ?r)"
    using c6 by (simp add: skipping_def skip_run_def idle_def)
  note t1 = skip_compensation [of 3 skipping skipped ?r, THEN conjunct1]
  note t2 = skip_compensation [of 3 skipping skipped ?r, THEN conjunct2, THEN conjunct1]
  note t3 = skip_compensation [of 3 closing skipped ?rc, THEN conjunct2, THEN conjunct2, THEN conjunct1]
  from mp [OF t2 h] have "skip 3 skipping =
        Some (Inr (skipping\<lparr>streamReader :=
                       Some (?r\<lparr>unread := drop (length (skipped_prefix (nat (sint (3 :: int32))) (skipIt skipping) (unread ?r)))
                                            (unread ?r)\<rparr>),
                     consumed := consumed skipping @ skipped_prefix (nat (sint (3 :: int32))) (skipIt skipping) (unread ?r)\<rparr>))"
    .
  note big = this
  have ur: "unread ?r = [ev 1, ev 2, ev 5, ev 3, ev 9, ev 4]" by simp
  from big have "skip 3 skipping =
        Some (Inr (skipping\<lparr>streamReader :=
                       Some (?r\<lparr>unread := drop (length [ev 1, ev 2, ev 5, ev 3])
                                            [ev 1, ev 2, ev 5, ev 3, ev 9, ev 4]\<rparr>),
                     consumed := consumed skipping @ [ev 1, ev 2, ev 5, ev 3]\<rparr>))"
    unfolding ur sp .
  moreover have "skipping\<lparr>streamReader :=
                       Some (?r\<lparr>unread := drop (length [ev 1, ev 2, ev 5, ev 3])
                                            [ev 1, ev 2, ev 5, ev 3, ev 9, ev 4]\<rparr>),
                     consumed := consumed skipping @ [ev 1, ev 2, ev 5, ev 3]\<rparr> = skipped"
    by (simp add: skipped_def skipping_def skip_run_def idle_def)
  ultimately have r: "skip 3 skipping = Some (Inr skipped)"
    by (simp only:)
  have c: "consumed skipped = consumed skipping @ [ev 1, ev 2, ev 5, ev 3]"
    by (simp add: skipped_def skipping_def skip_run_def)
  from p r have "0 \<le> sint (3 :: int32) \<and> skip 3 skipping = Some (Inr skipped)" by simp
  from mp [OF t1 this] obtain evs where e: "consumed skipped = consumed skipping @ evs"
    and l: "counted skipping evs = nat (sint (3 :: int32)) \<longrightarrow> evs = [] \<or> \<not> skipIt skipping (last evs)"
    by blast
  from e c have evs: "evs = [ev 1, ev 2, ev 5, ev 3]" by simp
  have n: "counted skipping [ev 1, ev 2, ev 5, ev 3] = nat (sint (3 :: int32))"
    by (simp add: counted_def m)
  from l n have last: "\<not> skipIt skipping (last [ev 1, ev 2, ev 5, ev 3])"
    unfolding evs by simp
  have cc: "counted closing [ev 1, ev 5, ev 2] < nat (sint (3 :: int32))"
    by (simp add: counted_def mc)
  have hc: "0 \<le> sint (3 :: int32) \<and> streamReader closing = Some ?rc
        \<and> \<not> flagEndOfRunKills closing \<and> fstate (fiterator closing) = EOR
        \<and> queue (fiterator closing) = []
        \<and> counted closing (unread ?rc) < nat (sint (3 :: int32))"
    using cc by (simp add: closing_def skip_run_def idle_def)
  from mp [OF t3 hc]
  have "skip 3 closing = Some (Inr (closing\<lparr>streamReader := None,
                                            consumed := consumed closing @ unread ?rc\<rparr>))"
    by (rule conjunct1)
  then have rc: "skip 3 closing = Some (Inr (closing\<lparr>streamReader := None, consumed := [ev 1, ev 5, ev 2]\<rparr>))"
    by (simp add: closing_def skip_run_def)
  from p c6 sp r n last cc rc show ?thesis by (intro conjI)
qed

text \<open>
  Claim C10 as stated: for negative \<open>n\<close> the counter of \<^verbatim>\<open>skip(n)\<close> never equals
  \<open>n\<close>, so the call ends only with the stream. With the 32-bit counter the call does
  return: on a file of \<open>2^32\<close> events and no skip predicate, \<^verbatim>\<open>skip(-1)\<close> returns
  after \<open>2^32 - 1\<close> events, when the counter has wrapped round to \<open>-1\<close>; one event
  is still unread and the next \<^verbatim>\<open>prepareNextEvent\<close> delivers it.
\<close>

theorem skip_negative_returns:
  "sint (- 1 :: int32) < 0
   \<and> skip (- 1) flood = Some (Inr flood_left)
   \<and> consumed flood_left = replicate 4294967295 (ev 1)
   \<and> prepareNextEvent flood_left =
       Some (Inr (Some (ev 1),
         flood_left\<lparr>streamReader := Some \<lparr>fileName = ''ls1.dat'', startMessage = INIT,
                          unread = [], newHeaderFlag = False\<rparr>,
                     consumed := replicate 4294967295 (ev 1) @ [ev 1]\<rparr>))"
proof -
  let ?r = "\<lparr>fileName = ''ls1.dat'', startMessage = INIT,
                          unread = replicate 4294967296 (ev 1), newHeaderFlag = False\<rparr>"
  let ?r' = "\<lparr>fileName = ''ls1.dat'', startMessage = INIT,
                          unread = replicate 1 (ev 1), newHeaderFlag = False\<rparr>"
  have "(4294967296 :: nat) = 4294967295 + 1" by simp
  then have u: "unread ?r = replicate (4294967295 + 1) (ev 1)" by (simp only: StreamerInputFile.simps)
  have "int (unat (- 1 :: int32)) = 4294967296 + sint (- 1 :: int32)"
    by (rule unat_of_neg) simp
  then have "int (unat (- 1 :: int32)) = int 4294967295" by (simp only: sint_n1)
  then have "unat (- 1 :: int32) = 4294967295" by (simp only: of_nat_eq_iff)
  then have k: "unat (- 1 - 0 :: int32) = 4294967295" by simp
  have "skip_loop 0 (- 1) flood =
           Some (Inr (flood\<lparr>streamReader := Some (?r\<lparr>unread := replicate 1 (ev 1)\<rparr>),
                        consumed := consumed flood @ replicate 4294967295 (ev 1)\<rparr>))"
    by (rule skip_loop_replicate [OF _ u _ _ _ _ k])
       (simp_all add: flood_def idle_def skipIt_def)
  moreover have "flood\<lparr>streamReader := Some (?r\<lparr>unread := replicate 1 (ev 1)\<rparr>),
                        consumed := consumed flood @ replicate 4294967295 (ev 1)\<rparr> = flood_left"
    by (simp add: flood_def flood_left_def idle_def)
  ultimately have 1: "skip (- 1) flood = Some (Inr flood_left)"
    by (simp only: skip_def)
  have 2: "prepareNextEvent flood_left =
       Some (Inr (Some (ev 1),
         flood_left\<lparr>streamReader := Some (?r'\<lparr>unread := []\<rparr>),
                     consumed := consumed flood_left @ [ev 1]\<rparr>))"
    by (rule prepareNextEvent_read) (simp_all add: flood_left_def idle_def)
  have 3: "consumed flood_left = replicate 4294967295 (ev 1)"
    by (simp add: flood_left_def)
  have 4: "sint (- 1 :: int32) < 0" by simp
  from 1 2 3 4 show ?thesis by simp
qed

text \<open>
  Claim C10, amended. For negative \<open>n\<close>, when \<^verbatim>\<open>skip(n)\<close> returns, either the
  stream is at its end, or exactly \<open>2^32 + n\<close> events not matched by the skip
  predicate have been read (so at least \<open>2^31\<close> events), the last of them
  unmatched: the counter has gone round the whole 32-bit range to reach \<open>n\<close>.
\<close>

theorem skip_negative_wraps:
  assumes "sint n < 0" and "skip n s = Some (Inr s')"
  shows "\<exists>evs. consumed s' = consumed s @ evs
         \<and> (int (counted s evs) = 4294967296 + sint n
               \<and> \<not> skipIt s (last evs) \<and> 2147483648 \<le> length evs
             \<or> int (counted s evs) < 4294967296 + sint n
               \<and> prepareNextEvent s' = Some (Inr (None, s')))"
proof -
  from assms(2) have "skip_loop 0 n s = Some (Inr s')" by (simp add: skip_def)
  from skip_loop_post [OF this] have "skip_post (unat n) s s'" by simp
  then obtain evs where e: "consumed s' = consumed s @ evs"
    and le: "counted s evs \<le> unat n"
    and l: "counted s evs = unat n \<longrightarrow> evs = [] \<or> \<not> skipIt s (last evs)"
    and eos: "counted s evs < unat n \<longrightarrow> prepareNextEvent s' = Some (Inr (None, s'))"
    unfolding skip_post_def by blast
  note u = unat_of_neg [OF assms(1)]
  have big: "2147483648 \<le> unat n"
    using u sint32_range(1) [of n] by linarith
  have cl: "counted s evs \<le> length evs" by (simp add: counted_def)
  show ?thesis
  proof (cases "counted s evs = unat n")
    case True
    with big cl have len: "2147483648 \<le> length evs" by linarith
    then have "evs \<noteq> []" by auto
    with True l have last: "\<not> skipIt s (last evs)" by simp
    from True u have "int (counted s evs) = 4294967296 + sint n" by linarith
    with e len last show ?thesis by blast
  next
    case False
    with le have lt: "counted s evs < unat n" by simp
    with u have "int (counted s evs) < 4294967296 + sint n" by linarith
    moreover from lt eos have "prepareNextEvent s' = Some (Inr (None, s'))" by simp
    ultimately show ?thesis using e by blast
  qed
qed

theorem skip_negative_wraps_witness:
  "sint (- 1 :: int32) < 0 \<and> skip (- 1) draining = Some (Inr ended)
   \<and> consumed ended = consumed draining @ []
   \<and> prepareNextEvent ended = Some (Inr (None, ended))"
proof -
  have n: "sint (- 1 :: int32) < 0" by simp
  have c: "consumed ended = consumed draining @ []" by (simp add: ended_def)
  from skip_negative_wraps [OF n skip_draining] obtain evs where
    e: "consumed ended = consumed draining @ evs"
    and d: "2147483648 \<le> length evs \<or> prepareNextEvent ended = Some (Inr (None, ended))"
    by blast
  from e c have "evs = []" by simp
  with d have "prepareNextEvent ended = Some (Inr (None, ended))" by simp
  with n c skip_draining show ?thesis by simp
qed

section \<open>The start-up loops on a quiet directory\<close>

lemma openNextFile_opened:
  assumes "queue (fiterator s) = entry # rest"
    and "disk s (make_path_data entry) = Some d" and "header_code d = INIT"
  shows "openNextFile s = Inr (True, opened_on entry d rest s)"
proof -
  let ?s2 = "s\<lparr>streamReader := None, fiterator := pop (fiterator s)\<rparr>"
  have "disk ?s2 (make_path_data entry) = Some d" using assms(2) by simp
  from openFile_good_header [OF this assms(3)] assms(1)
  have "openFile (make_path_data entry) ?s2 = Inr (opened_on entry d rest s)"
    by (simp add: opened_on_def pop_def)
  then show ?thesis by (simp add: openNextFile_present [OF assms(1,2)])
qed

lemma openNextFile_cases:
  assumes "openNextFile s = Inr (opened, s')"
  obtains entry rest d where "queue (fiterator s) = entry # rest"
      and "disk s (make_path_data entry) = Some d" and "header_code d = INIT"
      and "opened" and "s' = opened_on entry d rest s"
  | entry rest where "queue (fiterator s) = entry # rest"
      and "disk s (make_path_data entry) = None"
      and "\<not> opened" and "s' = s\<lparr>streamReader := None, fiterator := (fiterator s)\<lparr>queue := rest\<rparr>\<rparr>"
proof -
  from openNextFile_result [OF assms] obtain entry rest where
    q: "queue (fiterator s) = entry # rest" by blast
  show thesis
  proof (cases "disk s (make_path_data entry)")
    case None
    then have "\<not> exists_file (disk s) (make_path_data entry)" by (simp add: exists_file_def)
    from openNextFile_missing [OF q this] assms q None that(2) [of entry rest]
    show thesis by (simp add: pop_def)
  next
    case (Some d)
    show thesis
    proof (cases "header_code d = INIT")
      case True
      from openNextFile_opened [OF q Some True] assms that(1) [OF q Some True]
      show thesis by simp
    next
      case False
      let ?s2 = "s\<lparr>streamReader := None, fiterator := pop (fiterator s)\<rparr>"
      have "disk ?s2 (make_path_data entry) = Some d" using Some by simp
      from openFile_bad_header [OF this False] assms
      show thesis by (simp add: openNextFile_present [OF q Some])
    qed
  qed
qed

lemma fast_forward_done:
  assumes "polls (fiterator s) = []" and "queue (fiterator s) = []"
  shows "fast_forward s = Inr s"
proof -
  have "hasNext_r s = (False, s)"
    using assms by (simp add: hasNext_r_quiet update_state_quiet)
  then show ?thesis by (subst fast_forward.simps) simp
qed

lemma fast_forward_step:
  assumes "polls (fiterator s) = []" and "queue (fiterator s) \<noteq> []"
  shows "fast_forward s =
           (case openNextFile s of Inl e \<Rightarrow> Inl e | Inr (opened, s2) \<Rightarrow> fast_forward s2)"
proof -
  have "hasNext_r s = (True, s)"
    using assms by (simp add: hasNext_r_quiet update_state_quiet)
  then show ?thesis by (subst fast_forward.simps) simp
qed

lemma fast_forward_known:
  assumes "polls (fiterator s) = []" and "queue (fiterator s) = es"
    and "fast_forward s = Inr s'"
  shows "queue (fiterator s') = [] \<and> consumed s' = consumed s
       \<and> disk s' \<subseteq>\<^sub>m disk s
       \<and> (\<forall>p. p \<notin> make_path_data ` set es \<longrightarrow> disk s' p = disk s p)
       \<and> (es = [] \<longrightarrow> s' = s)
       \<and> (es \<noteq> [] \<longrightarrow>
            (\<forall>r. streamReader s' = Some r \<longrightarrow>
               (\<exists>d. disk s (make_path_data (last es)) = Some d
                  \<and> r = \<lparr>fileName = make_path_data (last es), startMessage = INIT,
                          unread = events d, newHeaderFlag = False\<rparr>))
          \<and> (streamReader s' = None \<longrightarrow>
               disk s (make_path_data (last es)) = None
               \<or> make_path_data (last es) \<in> make_path_data ` set (butlast es)))"
  using assms
proof (induction es arbitrary: s)
  case Nil
  then have "s' = s" using fast_forward_done [of s] by simp
  with Nil show ?case by simp
next
  case (Cons e rest)
  from Cons.prems have ne: "queue (fiterator s) \<noteq> []" by simp
  from Cons.prems(3) fast_forward_step [OF Cons.prems(1) ne]
  obtain opened s2 where o: "openNextFile s = Inr (opened, s2)" and ff: "fast_forward s2 = Inr s'"
    by (auto split: sum.splits)
  from o Cons.prems(2) have
    s2: "polls (fiterator s2) = []" "queue (fiterator s2) = rest" "consumed s2 = consumed s"
      "disk s2 \<subseteq>\<^sub>m disk s" "\<forall>p. p \<noteq> make_path_data e \<longrightarrow> disk s2 p = disk s p"
    and rd: "\<forall>r. streamReader s2 = Some r \<longrightarrow>
               (\<exists>d. disk s (make_path_data e) = Some d
                  \<and> r = \<lparr>fileName = make_path_data e, startMessage = INIT,
                          unread = events d, newHeaderFlag = False\<rparr>)"
    and rn: "streamReader s2 = None \<longrightarrow> disk s (make_path_data e) = None"
    using Cons.prems(1)
    by (cases rule: openNextFile_cases; simp add: opened_on_def unlink_def map_le_def)+
  note IH = Cons.IH [OF s2(1,2) ff]
  show ?case
  proof (cases "rest = []")
    case True
    with IH have "s' = s2" by simp
    with True s2 rd rn IH show ?thesis by simp
  next
    case False
    from IH s2(4) have le: "disk s' \<subseteq>\<^sub>m disk s" by (blast intro: map_le_trans)
    from IH s2(5) have keep: "\<forall>p. p \<notin> make_path_data ` set (e # rest) \<longrightarrow> disk s' p = disk s p"
      by simp
    have some: "\<exists>d. disk s (make_path_data (last (e # rest))) = Some d
                  \<and> r = \<lparr>fileName = make_path_data (last (e # rest)), startMessage = INIT,
                          unread = events d, newHeaderFlag = False\<rparr>"
      if "streamReader s' = Some r" for r
    proof -
      from IH False that obtain d where d: "disk s2 (make_path_data (last rest)) = Some d"
        and r: "r = \<lparr>fileName = make_path_data (last rest), startMessage = INIT,
                          unread = events d, newHeaderFlag = False\<rparr>" by blast
      from d s2(4) have "disk s (make_path_data (last rest)) = Some d"
        by (auto simp: map_le_def dom_def)
      with r False show ?thesis by simp
    qed
    have none: "disk s (make_path_data (last (e # rest))) = None
               \<or> make_path_data (last (e # rest)) \<in> make_path_data ` set (butlast (e # rest))"
      if "streamReader s' = None"
    proof -
      from IH False that have "disk s2 (make_path_data (last rest)) = None
               \<or> make_path_data (last rest) \<in> make_path_data ` set (butlast rest)" by blast
      with s2(5) False show ?thesis by (cases "make_path_data (last rest) = make_path_data e") auto
    qed
    from IH s2(3) le keep some none show ?thesis by simp
  qed
qed

lemma wait_first_file_step:
  assumes "polls (fiterator s) = []" and "queue (fiterator s) \<noteq> []"
  shows "wait_first_file s =
           (case openNextFile s of
              Inl e \<Rightarrow> Some (Inl e)
            | Inr (opened, s2) \<Rightarrow> if opened then Some (Inr s2) else wait_first_file s2)"
proof -
  have "hasNext_r s = (True, s)"
    using assms by (simp add: hasNext_r_quiet update_state_quiet)
  then show ?thesis by (subst wait_first_file.simps) simp
qed

lemma opened_on_skip:
  "opened_on e d post (s\<lparr>streamReader := None, fiterator := (fiterator s)\<lparr>queue := rest\<rparr>\<rparr>)
     = opened_on e d post s"
  by (simp add: opened_on_def)

lemma wait_first_file_returns:
  assumes "polls (fiterator s) = []" and "queue (fiterator s) = pre @ e # post"
    and "\<forall>x\<in>set pre. disk s (make_path_data x) = None"
    and "disk s (make_path_data e) = Some d" and "header_code d = INIT"
  shows "wait_first_file s = Some (Inr (opened_on e d post s))"
  using assms
proof (induction pre arbitrary: s)
  case Nil
  then have q: "queue (fiterator s) = e # post" by simp
  then have ne: "queue (fiterator s) \<noteq> []" by simp
  show ?case
    by (simp add: wait_first_file_step [OF Nil(1) ne] openNextFile_opened [OF q Nil(4,5)])
next
  case (Cons x pre)
  let ?s2 = "s\<lparr>streamReader := None, fiterator := (fiterator s)\<lparr>queue := pre @ e # post\<rparr>\<rparr>"
  from Cons.prems have q: "queue (fiterator s) = x # (pre @ e # post)" by simp
  then have ne: "queue (fiterator s) \<noteq> []" by simp
  from Cons.prems have "\<not> exists_file (disk s) (make_path_data x)"
    by (simp add: exists_file_def)
  from openNextFile_missing [OF q this] q have "openNextFile s = Inr (False, ?s2)"
    by (simp add: pop_def)
  then have "wait_first_file s = wait_first_file ?s2"
    by (simp add: wait_first_file_step [OF Cons.prems(1) ne])
  also have "\<dots> = Some (Inr (opened_on e d post ?s2))"
    using Cons.prems by (intro Cons.IH) simp_all
  finally show ?case by (simp only: opened_on_skip)
qed

lemma wait_first_file_known:
  assumes "wait_first_file s = Some y"
  shows "polls (fiterator s) = [] \<longrightarrow>
         (\<forall>s1. y = Inr s1 \<longrightarrow>
            (\<exists>pre e post d. queue (fiterator s) = pre @ e # post
               \<and> (\<forall>x\<in>set pre. disk s (make_path_data x) = None)
               \<and> disk s (make_path_data e) = Some d \<and> header_code d = INIT
               \<and> s1 = opened_on e d post s))"
proof (rule wait_first_file.raw_induct
         [where P = "\<lambda>s y. polls (fiterator s) = [] \<longrightarrow>
         (\<forall>s1. y = Inr s1 \<longrightarrow>
            (\<exists>pre e post d. queue (fiterator s) = pre @ e # post
               \<and> (\<forall>x\<in>set pre. disk s (make_path_data x) = None)
               \<and> disk s (make_path_data e) = Some d \<and> header_code d = INIT
               \<and> s1 = opened_on e d post s))", OF _ assms])
  fix f :: "DQMStreamerReader \<Rightarrow> (error + DQMStreamerReader) option" and s y
  let ?P = "\<lambda>s y. polls (fiterator s) = [] \<longrightarrow>
         (\<forall>s1. y = Inr s1 \<longrightarrow>
            (\<exists>pre e post d. queue (fiterator s) = pre @ e # post
               \<and> (\<forall>x\<in>set pre. disk s (make_path_data x) = None)
               \<and> disk s (make_path_data e) = Some d \<and> header_code d = INIT
               \<and> s1 = opened_on e d post s))"
  assume IH: "\<And>s y. f s = Some y \<Longrightarrow> ?P s y"
    and eq: "(let (nxt, s1) = hasNext_r s in
      if \<not> nxt then f (delay s1)
      else (case openNextFile s1 of
              Inl e \<Rightarrow> Some (Inl e)
            | Inr (opened, s2) \<Rightarrow> if opened then Some (Inr s2) else f s2)) = Some y"
  show "?P s y"
  proof (intro impI)
    assume quiet: "polls (fiterator s) = []"
    then have h: "hasNext_r s = (queue (fiterator s) \<noteq> [], s)"
      by (simp add: hasNext_r_quiet update_state_quiet)
    show "\<forall>s1. y = Inr s1 \<longrightarrow>
            (\<exists>pre e post d. queue (fiterator s) = pre @ e # post
               \<and> (\<forall>x\<in>set pre. disk s (make_path_data x) = None)
               \<and> disk s (make_path_data e) = Some d \<and> header_code d = INIT
               \<and> s1 = opened_on e d post s)"
    proof (cases "queue (fiterator s) = []")
      case True
      with eq h have "f s = Some y" by (simp add: delay_def)
      from IH [OF this] quiet show ?thesis by simp
    next
      case False
      with eq h have c: "(case openNextFile s of
              Inl e \<Rightarrow> Some (Inl e)
            | Inr (opened, s2) \<Rightarrow> if opened then Some (Inr s2) else f s2) = Some y" by simp
      show ?thesis
      proof (cases "openNextFile s")
        case (Inl e)
        with c show ?thesis by auto
      next
        case (Inr x)
        obtain opened s2 where x: "x = (opened, s2)" by (cases x)
        with Inr have o: "openNextFile s = Inr (opened, s2)" by simp
        from o show ?thesis
        proof (cases rule: openNextFile_cases)
          case (1 entry rest d)
          with c o have "y = Inr (opened_on entry d rest s)" by simp
          with 1 show ?thesis
            by (intro allI impI exI [of _ "[]"] exI [of _ entry] exI [of _ rest] exI [of _ d]) simp
        next
          case (2 entry rest)
          with c o have fy: "f s2 = Some y" by simp
          from 2 quiet have q2: "polls (fiterator s2) = []" by simp
          show ?thesis
          proof (intro allI impI)
            fix s1 assume "y = Inr s1"
            with IH [OF fy] q2 obtain pre e post d where
              p: "queue (fiterator s2) = pre @ e # post"
              "\<forall>x\<in>set pre. disk s2 (make_path_data x) = None"
              "disk s2 (make_path_data e) = Some d" "header_code d = INIT"
              "s1 = opened_on e d post s2" by blast
            from p 2 have "queue (fiterator s) = (entry # pre) @ e # post"
              "\<forall>x\<in>set (entry # pre). disk s (make_path_data x) = None"
              "disk s (make_path_data e) = Some d"
              "s1 = opened_on e d post s"
              by (simp_all add: opened_on_skip)
            with p(4) show "\<exists>pre e post d. queue (fiterator s) = pre @ e # post
               \<and> (\<forall>x\<in>set pre. disk s (make_path_data x) = None)
               \<and> disk s (make_path_data e) = Some d \<and> header_code d = INIT
               \<and> s1 = opened_on e d post s" by blast
          qed
        qed
      qed
    qed
  qed
qed

lemma fast_forward_no_error:
  assumes "polls (fiterator s) = []" and "queue (fiterator s) = es"
    and "\<forall>e\<in>set es. \<forall>d. disk s (make_path_data e) = Some d \<longrightarrow> header_code d = INIT"
  shows "\<exists>s'. fast_forward s = Inr s'"
  using assms
proof (induction es arbitrary: s)
  case Nil
  then show ?case by (simp add: fast_forward_done)
next
  case (Cons e rest)
  from Cons.prems have q: "queue (fiterator s) = e # rest" and ne: "queue (fiterator s) \<noteq> []"
    by simp_all
  note step = fast_forward_step [OF Cons.prems(1) ne]
  show ?case
  proof (cases "disk s (make_path_data e)")
    case None
    let ?s2 = "s\<lparr>streamReader := None, fiterator := pop (fiterator s)\<rparr>"
    from None have "\<not> exists_file (disk s) (make_path_data e)" by (simp add: exists_file_def)
    from openNextFile_missing [OF q this] have "fast_forward s = fast_forward ?s2"
      by (simp add: step)
    moreover have "\<exists>s'. fast_forward ?s2 = Inr s'"
      using Cons.prems q by (intro Cons.IH) (simp_all add: pop_def)
    ultimately show ?thesis by simp
  next
    case (Some d)
    with Cons.prems have i: "header_code d = INIT" by simp
    from openNextFile_opened [OF q Some i]
    have "fast_forward s = fast_forward (opened_on e d rest s)" by (simp add: step)
    moreover have "\<exists>s'. fast_forward (opened_on e d rest s) = Inr s'"
      using Cons.prems
      by (intro Cons.IH) (auto simp: opened_on_def unlink_def split: if_splits)
    ultimately show ?thesis by simp
  qed
qed

lemma opened_on_keeps:
  "flagSkipFirstLumis (opened_on e d post s) = flagSkipFirstLumis s"
  "polls (fiterator (opened_on e d post s)) = polls (fiterator s)"
  "queue (fiterator (opened_on e d post s)) = post"
  "consumed (opened_on e d post s) = consumed s"
  "disk (opened_on e d post s) \<subseteq>\<^sub>m disk s"
  "streamReader (opened_on e d post s) =
     Some \<lparr>fileName = make_path_data e, startMessage = INIT, unread = events d, newHeaderFlag = False\<rparr>"
  by (simp_all add: opened_on_def unlink_def map_le_def)

lemma opened_on_disk:
  "disk (opened_on e d post s) p = None \<Longrightarrow> disk s p = None \<or> p = make_path_data e"
  by (simp add: opened_on_def unlink_def split: if_splits)

lemma reset_starting: "reset starting = Some (Inr fast_forwarded)"
proof -
  let ?d1 = "\<lparr>header_code = INIT, events = [ev 1, ev 2, ev 3]\<rparr>"
  let ?d2 = "\<lparr>header_code = INIT, events = [ev 4]\<rparr>"
  let ?d3 = "\<lparr>header_code = INIT, events = [ev 5, ev 6]\<rparr>"
  let ?s1 = "opened_on L1 ?d1 [L2, L3] starting"
  let ?s2 = "opened_on L2 ?d2 [L3] ?s1"
  let ?s3 = "opened_on L3 ?d3 [] ?s2"
  have paths: "make_path_data L1 = ''ls1.dat''" "make_path_data L2 = ''ls2.dat''"
    "make_path_data L3 = ''ls3.dat''"
    by (simp_all add: make_path_data_def L1_def L2_def L3_def)
  have w: "wait_first_file starting = Some (Inr ?s1)"
    by (rule wait_first_file_returns [where pre = "[]"])
       (simp_all add: starting_def paths disk3_def)
  have d2: "disk ?s1 (make_path_data L2) = Some ?d2"
    by (simp add: opened_on_def starting_def idle_def paths disk3_def)
  have d3: "disk ?s2 (make_path_data L3) = Some ?d3"
    by (simp add: opened_on_def starting_def idle_def paths disk3_def)
  have q: "polls (fiterator ?s1) = []" "polls (fiterator ?s2) = []" "polls (fiterator ?s3) = []"
    by (simp_all add: opened_on_keeps starting_def)
  have n: "queue (fiterator ?s1) \<noteq> []" "queue (fiterator ?s2) \<noteq> []"
    by (simp_all add: opened_on_keeps)
  have o2: "openNextFile ?s1 = Inr (True, ?s2)"
    by (rule openNextFile_opened [OF _ d2]) (simp_all add: opened_on_keeps)
  have o3: "openNextFile ?s2 = Inr (True, ?s3)"
    by (rule openNextFile_opened [OF _ d3]) (simp_all add: opened_on_keeps)
  have "fast_forward ?s1 = fast_forward ?s2"
    unfolding fast_forward_step [OF q(1) n(1)] o2 by simp
  also have "\<dots> = fast_forward ?s3"
    unfolding fast_forward_step [OF q(2) n(2)] o3 by simp
  also have "\<dots> = Inr ?s3"
    by (rule fast_forward_done [OF q(3)]) (simp add: opened_on_keeps)
  also have "?s3 = fast_forwarded"
    by (simp add: fast_forwarded_def opened_on_def starting_def idle_def paths)
  finally have "fast_forward ?s1 = Inr fast_forwarded" .
  with w show ?thesis
    by (simp add: reset_def opened_on_keeps starting_def)
qed

section \<open>Fast-forward at start-up\<close>

text \<open>
  Claim C5. Let \<^verbatim>\<open>skipFirstLumis\<close> be set and let the entries \<open>es\<close> be queued when
  \<^verbatim>\<open>reset_\<close> starts, the directory showing nothing new meanwhile. When
  \<^verbatim>\<open>reset_\<close> returns, the queue is empty and no event has been read from any
  file. A file that is open then is the data file of the last entry of \<open>es\<close>, with
  all its events unread; no file is open only if the data file of the last entry is
  not on disk (or an earlier entry named the same path). \<^verbatim>\<open>reset_\<close> does return
  when at least one queued entry has its data file on disk and every data file on
  disk starts with an \<open>INIT\<close> record.
\<close>

theorem skipFirstLumis_fast_forward:
  assumes "flagSkipFirstLumis s" and "polls (fiterator s) = []" and "queue (fiterator s) = es"
  shows "(\<forall>s'. reset s = Some (Inr s') \<longrightarrow>
            es \<noteq> [] \<and> queue (fiterator s') = [] \<and> consumed s' = consumed s
          \<and> (\<forall>r. streamReader s' = Some r \<longrightarrow>
               (\<exists>d. disk s (make_path_data (last es)) = Some d
                  \<and> r = \<lparr>fileName = make_path_data (last es), startMessage = INIT,
                          unread = events d, newHeaderFlag = False\<rparr>))
          \<and> (streamReader s' = None \<longrightarrow>
               disk s (make_path_data (last es)) = None
               \<or> make_path_data (last es) \<in> make_path_data ` set (butlast es)))
       \<and> ((\<exists>e\<in>set es. disk s (make_path_data e) \<noteq> None)
            \<and> (\<forall>e\<in>set es. \<forall>d. disk s (make_path_data e) = Some d \<longrightarrow> header_code d = INIT) \<longrightarrow>
          (\<exists>s'. reset s = Some (Inr s')))"
proof (intro conjI allI impI)
  fix s' assume r: "reset s = Some (Inr s')"
  then obtain s1 where w: "wait_first_file s = Some (Inr s1)"
    and f: "if flagSkipFirstLumis s1 then fast_forward s1 = Inr s' else s1 = s'"
    by (auto simp: reset_def split: option.splits sum.splits if_splits)
  from wait_first_file_known [OF w] assms obtain pre e post d where
    q: "es = pre @ e # post" and d: "disk s (make_path_data e) = Some d"
    and s1: "s1 = opened_on e d post s" by auto
  from f s1 assms(1) have ff: "fast_forward s1 = Inr s'" by (simp add: opened_on_keeps)
  have q1: "polls (fiterator s1) = []" "queue (fiterator s1) = post"
    using s1 assms(2) by (simp_all add: opened_on_keeps)
  note K = fast_forward_known [OF q1 ff]
  show "es \<noteq> []" using q by simp
  show "queue (fiterator s') = []" using K by simp
  show "consumed s' = consumed s" using K s1 by (simp add: opened_on_keeps)
  have le: "disk s1 \<subseteq>\<^sub>m disk s" using s1 by (simp add: opened_on_keeps)
  {
    fix r assume sr: "streamReader s' = Some r"
    show "\<exists>d. disk s (make_path_data (last es)) = Some d
                  \<and> r = \<lparr>fileName = make_path_data (last es), startMessage = INIT,
                          unread = events d, newHeaderFlag = False\<rparr>"
    proof (cases "post = []")
      case True
      with K have "s' = s1" by simp
      with sr s1 d q True show ?thesis by (simp add: opened_on_keeps)
    next
      case False
      with K sr obtain d' where "disk s1 (make_path_data (last post)) = Some d'"
        and r: "r = \<lparr>fileName = make_path_data (last post), startMessage = INIT,
                          unread = events d', newHeaderFlag = False\<rparr>" by blast
      with le have "disk s (make_path_data (last post)) = Some d'"
        by (auto simp: map_le_def dom_def)
      with r q False show ?thesis by simp
    qed
  }
  {
    assume sn: "streamReader s' = None"
    show "disk s (make_path_data (last es)) = None
               \<or> make_path_data (last es) \<in> make_path_data ` set (butlast es)"
    proof (cases "post = []")
      case True
      with K have "s' = s1" by simp
      with sn s1 show ?thesis by (simp add: opened_on_keeps)
    next
      case False
      then have l: "last es = last post" and b: "butlast es = pre @ e # butlast post"
        using q by (simp_all add: butlast_append)
      from K False sn have "disk s1 (make_path_data (last post)) = None
               \<or> make_path_data (last post) \<in> make_path_data ` set (butlast post)" by blast
      then show ?thesis
      proof
        assume "disk s1 (make_path_data (last post)) = None"
        from opened_on_disk [OF this [unfolded s1]] show ?thesis
          unfolding l b by auto
      next
        assume "make_path_data (last post) \<in> make_path_data ` set (butlast post)"
        then show ?thesis unfolding l b by auto
      qed
    qed
  }
next
  assume a: "(\<exists>e\<in>set es. disk s (make_path_data e) \<noteq> None)
            \<and> (\<forall>e\<in>set es. \<forall>d. disk s (make_path_data e) = Some d \<longrightarrow> header_code d = INIT)"
  then have "\<exists>e\<in>set es. disk s (make_path_data e) \<noteq> None" by simp
  from split_list_first_prop [OF this] obtain pre e post where
    q: "es = pre @ e # post" and e: "disk s (make_path_data e) \<noteq> None"
    and pre: "\<forall>x\<in>set pre. \<not> disk s (make_path_data x) \<noteq> None" by blast
  from e obtain d where d: "disk s (make_path_data e) = Some d" by auto
  with a q have i: "header_code d = INIT" by simp
  let ?s1 = "opened_on e d post s"
  have w: "wait_first_file s = Some (Inr ?s1)"
    using assms(2,3) q pre d i by (intro wait_first_file_returns) simp_all
  have le: "disk ?s1 \<subseteq>\<^sub>m disk s" by (simp add: opened_on_keeps)
  have "\<forall>x\<in>set post. \<forall>d. disk ?s1 (make_path_data x) = Some d \<longrightarrow> header_code d = INIT"
  proof (intro ballI allI impI)
    fix x d' assume x: "x \<in> set post" and "disk ?s1 (make_path_data x) = Some d'"
    with le have "disk s (make_path_data x) = Some d'" by (auto simp: map_le_def dom_def)
    with a q x show "header_code d' = INIT" by auto
  qed
  then have "\<exists>s'. fast_forward ?s1 = Inr s'"
    using assms(2) by (intro fast_forward_no_error [where es = post]) (simp_all add: opened_on_keeps)
  with w assms(1) show "\<exists>s'. reset s = Some (Inr s')"
    by (auto simp: reset_def opened_on_keeps)
qed

theorem skipFirstLumis_fast_forward_witness:
  "flagSkipFirstLumis starting \<and> polls (fiterator starting) = []
   \<and> queue (fiterator starting) = [L1, L2, L3]
   \<and> reset starting = Some (Inr fast_forwarded)
   \<and> queue (fiterator fast_forwarded) = []
   \<and> consumed fast_forwarded = consumed starting
   \<and> streamReader fast_forwarded =
        Some \<lparr>fileName = ''ls3.dat'', startMessage = INIT,
               unread = [ev 5, ev 6], newHeaderFlag = False\<rparr>"
proof -
  have h: "flagSkipFirstLumis starting" "polls (fiterator starting) = []"
    "queue (fiterator starting) = [L1, L2, L3]"
    by (simp_all add: starting_def)
  have r: "streamReader fast_forwarded =
        Some \<lparr>fileName = ''ls3.dat'', startMessage = INIT,
               unread = [ev 5, ev 6], newHeaderFlag = False\<rparr>"
    by (simp add: fast_forwarded_def)
  from skipFirstLumis_fast_forward [OF h] reset_starting
  have "queue (fiterator fast_forwarded) = []" "consumed fast_forwarded = consumed starting"
    by blast+
  with h r reset_starting show ?thesis by simp
qed

section \<open>Deleting data files\<close>

lemma deleting_delivers:
  "prepareNextEvent deleting =
     Some (Inr (Some (ev 1),
       just_opened\<lparr>streamReader := Some \<lparr>fileName = ''ls1.dat'', startMessage = INIT,
                                           unread = [ev 2, ev 3], newHeaderFlag = False\<rparr>,
                    consumed := [ev 1]\<rparr>))"
proof -
  let ?d = "\<lparr>header_code = INIT, events = [ev 1, ev 2, ev 3]\<rparr>"
  let ?r = "\<lparr>fileName = ''ls1.dat'', startMessage = INIT,
             unread = [ev 1, ev 2, ev 3], newHeaderFlag = False\<rparr>"
  have q: "queue (fiterator deleting) = L1 # []"
    by (simp add: deleting_def)
  have d: "disk deleting (make_path_data L1) = Some ?d"
    by (simp add: deleting_def make_path_data_def L1_def disk3_def)
  have "opened_on L1 ?d [] deleting = just_opened"
    by (simp add: opened_on_def just_opened_def deleting_def idle_def make_path_data_def L1_def unlink_def)
  with openNextFile_opened [OF q d] have o: "openNextFile deleting = Inr (True, just_opened)"
    by simp
  have "prepareNextEvent_body deleting = after_open (openNextFile deleting)"
    by (rule body_no_file_quiet) (simp_all add: deleting_def idle_def update_state_def)
  then have "prepareNextEvent_body deleting = Continue just_opened"
    by (simp add: o after_open_def)
  then have "prepareNextEvent deleting = prepareNextEvent just_opened"
    by (rule prepareNextEvent_Continue)
  also have "\<dots> = Some (Inr (Some (ev 1),
       just_opened\<lparr>streamReader := Some (?r\<lparr>unread := [ev 2, ev 3]\<rparr>),
                    consumed := consumed just_opened @ [ev 1]\<rparr>))"
    by (rule prepareNextEvent_read) (simp_all add: just_opened_def deleting_def idle_def)
  finally show ?thesis by (simp add: just_opened_def deleting_def idle_def)
qed

text \<open>
  Claim C1. With \<^verbatim>\<open>deleteDatFiles\<close> set, a data file is to leave the disk only after
  its end of file has been seen; the description of the parameter says that data files
  are deleted after they have been closed. \<^verbatim>\<open>openFile_\<close> unlinks the file as soon as
  its header has been read. In the run below the flag is set and one lumisection with
  a file of three events is queued. After \<^verbatim>\<open>openNextFile_\<close> the path is gone from
  the disk while the file is open, its three events unread and nothing consumed; the
  first call of \<^verbatim>\<open>prepareNextEvent\<close> then delivers event 1 from the file that is no
  longer on disk, with two events still to read.
\<close>

theorem deleted_before_drained:
  "flagDeleteDatFiles deleting
   \<and> disk deleting ''ls1.dat'' = Some \<lparr>header_code = INIT, events = [ev 1, ev 2, ev 3]\<rparr>
   \<and> openNextFile deleting = Inr (True, just_opened)
   \<and> disk just_opened ''ls1.dat'' = None
   \<and> map_option unread (streamReader just_opened) = Some [ev 1, ev 2, ev 3]
   \<and> consumed just_opened = []
   \<and> prepareNextEvent deleting =
        Some (Inr (Some (ev 1),
          just_opened\<lparr>streamReader := Some \<lparr>fileName = ''ls1.dat'', startMessage = INIT,
                                              unread = [ev 2, ev 3], newHeaderFlag = False\<rparr>,
                       consumed := [ev 1]\<rparr>))"
proof -
  let ?d = "\<lparr>header_code = INIT, events = [ev 1, ev 2, ev 3]\<rparr>"
  have q: "queue (fiterator deleting) = L1 # []"
    by (simp add: deleting_def)
  have d: "disk deleting (make_path_data L1) = Some ?d"
    by (simp add: deleting_def make_path_data_def L1_def disk3_def)
  have "opened_on L1 ?d [] deleting = just_opened"
    by (simp add: opened_on_def just_opened_def deleting_def idle_def make_path_data_def
          L1_def unlink_def)
  with openNextFile_opened [OF q d] have "openNextFile deleting = Inr (True, just_opened)"
    by simp
  moreover have "disk just_opened ''ls1.dat'' = None"
    "map_option unread (streamReader just_opened) = Some [ev 1, ev 2, ev 3]"
    "consumed just_opened = []" "flagDeleteDatFiles deleting"
    by (simp_all add: just_opened_def deleting_def idle_def)
  moreover have "disk deleting ''ls1.dat'' = Some ?d"
    by (simp add: deleting_def disk3_def)
  ultimately show ?thesis using deleting_delivers by simp
qed

end
